theory Spec2Isabelle
  imports Main "HOL-Library.Word"
begin

unbundle bit_operations_syntax

section \<open>Data model of main.cpp\<close>

text \<open>
  The globals of \<^verbatim>\<open>DX12Renderer/source/main.cpp\<close> become one record that every
  operation takes and returns. The Direct3D, DXGI and Win32 objects the program talks to are
  outside the program: what they answer is an input (\<open>env\<close>), what the program asks of them
  is appended to a trace (\<open>calls\<close>), and the one piece of GPU behaviour the synchronisation
  depends on, the fence of the command queue, is modelled explicitly.
\<close>

type_synonym u32 = "32 word"
type_synonym u64 = "64 word"

text \<open>\<^verbatim>\<open>LONG\<close> is a 32-bit two's complement integer; subtraction is the same on the bits.\<close>
type_synonym LONG = "32 word"

text \<open>\<^verbatim>\<open>constexpr uint8_t g_NumFrames = 2;\<close>\<close>
definition g_NumFrames :: nat where
  "g_NumFrames = 2"

record RECT =
  rc_left :: LONG
  rc_top :: LONG
  rc_right :: LONG
  rc_bottom :: LONG

datatype resource_state = D3D12_RESOURCE_STATE_PRESENT | D3D12_RESOURCE_STATE_RENDER_TARGET

datatype insert_after = HWND_TOP | HWND_NOTOPMOST

datatype show_cmd = SW_NORMAL | SW_MAXIMIZE | SW_SHOW

text \<open>
  The calls the program makes on its collaborators, with the arguments that matter.
  A back buffer is named by its index in the swap chain; \<open>None\<close> is a null \<^verbatim>\<open>ComPtr\<close>.
\<close>
datatype api_call =
    CommandAllocator_Reset nat
  | CommandList_Reset nat
  | ResourceBarrier "nat option" resource_state resource_state
  | ClearRenderTargetView nat
  | CommandList_Close
  | ExecuteCommandLists
  | Present u32 u32
  | CommandQueue_Signal u64
  | GetCurrentBackBufferIndex
  | GetCompletedValue
  | SetEventOnCompletion u64
  | WaitForSingleObject
  | BackBuffer_Reset nat
  | SwapChain_GetDesc
  | ResizeBuffers nat u32 u32
  | GetBuffer nat
  | CreateRenderTargetView nat
  | GetWindowRect
  | SetWindowLongW u32
  | MonitorFromWindow
  | GetMonitorInfo
  | SetWindowPos insert_after LONG LONG LONG LONG
  | ShowWindow show_cmd
  | GetClientRect
  | PostQuitMessage
  | DefWindowProcW
  | CreateDXGIFactory2
  | EnumWarpAdapter
  | ComPtr_As
  | D3D12CreateDevice
  | CreateCommandQueue
  | CreateSwapChainForHwnd
  | MakeWindowAssociation
  | CreateDescriptorHeap
  | CreateCommandAllocator nat
  | CreateCommandList
  | CreateFence

text \<open>
  Every way an operation can fail to return normally: a call wrapped in
  \<^verbatim>\<open>ThrowIfFailed\<close> that reports failure, an array or \<^verbatim>\<open>argv\<close> access outside its bounds
  (undefined behaviour in C++), and a wait with an infinite timeout on a fence value that the
  GPU never reaches.
\<close>
datatype error = Failed api_call | OutOfBounds nat | WaitsForever u64

text \<open>
  What the collaborators answer during one operation: which calls report failure, the index
  \<^verbatim>\<open>IDXGISwapChain::GetCurrentBackBufferIndex\<close> returns, how many queued fence signals the
  GPU has retired on its own by the time the fence is read, the rectangles Win32 reports,
  whether Alt is held, and whether the display supports tearing.
\<close>
record env =
  failing :: "api_call \<Rightarrow> bool"
  next_index :: nat
  gpu_steps :: nat
  window_rect :: RECT
  monitor_rect :: RECT
  client_rect :: RECT
  alt_down :: bool
  tearing_support :: bool

text \<open>
  The globals, then the fence (\<open>fence_completed\<close> is what
  \<^verbatim>\<open>ID3D12Fence::GetCompletedValue\<close> would return, \<open>queue_signals\<close> the values of the
  \<^verbatim>\<open>ID3D12CommandQueue::Signal\<close> commands the GPU has not reached yet, oldest first), then
  the trace. The arrays of \<open>g_NumFrames\<close> entries are functions from the index; an access
  at an index that is not below \<open>g_NumFrames\<close> is an \<open>OutOfBounds\<close> error.
\<close>
record state =
  g_UseWarp :: bool
  g_ClientWidth :: u32
  g_ClientHeight :: u32
  g_IsInitialized :: bool
  g_WindowRect :: RECT
  g_BackBuffers :: "nat \<Rightarrow> nat option"
  g_CurrentBackBufferIndex :: nat
  g_FenceValue :: u64
  g_FrameFenceValues :: "nat \<Rightarrow> u64"
  g_VSync :: bool
  g_TearingSupported :: bool
  g_Fullscreen :: bool
  fence_completed :: u64
  queue_signals :: "u64 list"
  calls :: "api_call list"

text \<open>The static initialisers of the globals; the fence is created with value 0.\<close>
definition globals0 :: state where
  "globals0 = \<lparr>
     g_UseWarp = False,
     g_ClientWidth = 1280,
     g_ClientHeight = 720,
     g_IsInitialized = False,
     g_WindowRect = \<lparr>rc_left = 0, rc_top = 0, rc_right = 0, rc_bottom = 0\<rparr>,
     g_BackBuffers = (\<lambda>_. None),
     g_CurrentBackBufferIndex = 0,
     g_FenceValue = 0,
     g_FrameFenceValues = (\<lambda>_. 0),
     g_VSync = True,
     g_TearingSupported = False,
     g_Fullscreen = False,
     fence_completed = 0,
     queue_signals = [],
     calls = [] \<rparr>"

section \<open>Calls, failures and sequencing\<close>

definition call :: "api_call \<Rightarrow> state \<Rightarrow> state" where
  "call c s = s\<lparr>calls := calls s @ [c]\<rparr>"

text \<open>
  Modelled from the spec: \<^verbatim>\<open>ThrowIfFailed\<close> is declared in \<^verbatim>\<open>Helpers.h\<close>, which is not
  among the sources. The spec says that every failure of a GPU API call is fatal at the point
  where it occurs and is not retried: the operation stops there with the failed call.
\<close>
definition ThrowIfFailed :: "env \<Rightarrow> api_call \<Rightarrow> state \<Rightarrow> error + state" where
  "ThrowIfFailed e c s = (if failing e c then Inl (Failed c) else Inr (call c s))"

definition andThen :: "error + 'a \<Rightarrow> ('a \<Rightarrow> error + 'b) \<Rightarrow> error + 'b" where
  "andThen r f = (case r of Inl x \<Rightarrow> Inl x | Inr a \<Rightarrow> f a)"

section \<open>The fence\<close>

text \<open>
  The GPU reaches the queued signals in submission order; reaching one sets the fence to its
  value. \<open>gpu_retire k\<close> is the GPU reaching the next \<open>k\<close> signals (or all that are left).
\<close>
fun gpu_retire :: "nat \<Rightarrow> u64 \<Rightarrow> u64 list \<Rightarrow> u64 \<times> u64 list" where
  "gpu_retire 0 c ps = (c, ps)"
| "gpu_retire (Suc k) c [] = (c, [])"
| "gpu_retire (Suc k) c (p # ps) = gpu_retire k p ps"

text \<open>
  \<^verbatim>\<open>SetEventOnCompletion(v, event)\<close> followed by \<^verbatim>\<open>WaitForSingleObject(event, INFINITE)\<close>:
  the event fires as soon as the fence is at least \<open>v\<close>, so the thread resumes once the GPU
  has reached the first queued signal that brings the fence there, and never if there is none.
\<close>
fun gpu_reach :: "u64 \<Rightarrow> u64 \<Rightarrow> u64 list \<Rightarrow> (u64 \<times> u64 list) option" where
  "gpu_reach v c [] = (if v \<le> c then Some (c, []) else None)"
| "gpu_reach v c (p # ps) = (if v \<le> c then Some (c, p # ps) else gpu_reach v p ps)"

text \<open>
  \<^verbatim>\<open>Signal(commandQueue, fence, fenceValue)\<close>; every caller passes \<open>g_FenceValue\<close> as the
  reference \<^verbatim>\<open>fenceValue\<close>. \<^verbatim>\<open>++fenceValue\<close> is 64-bit unsigned and wraps.
\<close>
definition Signal :: "env \<Rightarrow> state \<Rightarrow> error + (u64 \<times> state)" where
  "Signal e s =
     (let fenceValueForSignal = g_FenceValue s + 1;
          s1 = s\<lparr>g_FenceValue := fenceValueForSignal\<rparr>
      in andThen (ThrowIfFailed e (CommandQueue_Signal fenceValueForSignal) s1)
           (\<lambda>s2. Inr (fenceValueForSignal,
                       s2\<lparr>queue_signals := queue_signals s2 @ [fenceValueForSignal]\<rparr>)))"

text \<open>
  \<^verbatim>\<open>WaitForFenceValue(fence, fenceValue, fenceEvent)\<close> with the default duration, which
  \<^verbatim>\<open>static_cast<DWORD>\<close> turns into \<^verbatim>\<open>INFINITE\<close>. The result of
  \<^verbatim>\<open>WaitForSingleObject\<close> is not looked at.
\<close>
definition WaitForFenceValue :: "env \<Rightarrow> u64 \<Rightarrow> state \<Rightarrow> error + state" where
  "WaitForFenceValue e fenceValue s =
     (let (c, ps) = gpu_retire (gpu_steps e) (fence_completed s) (queue_signals s);
          s1 = call GetCompletedValue (s\<lparr>fence_completed := c, queue_signals := ps\<rparr>)
      in if fence_completed s1 < fenceValue
         then andThen (ThrowIfFailed e (SetEventOnCompletion fenceValue) s1)
                (\<lambda>s2. case gpu_reach fenceValue (fence_completed s2) (queue_signals s2) of
                         None \<Rightarrow> Inl (WaitsForever fenceValue)
                       | Some (c', ps') \<Rightarrow>
                           Inr (call WaitForSingleObject
                                  (s2\<lparr>fence_completed := c', queue_signals := ps'\<rparr>)))
         else Inr s1)"

definition Flush :: "env \<Rightarrow> state \<Rightarrow> error + state" where
  "Flush e s =
     andThen (Signal e s) (\<lambda>(fenceValueForSignal, s1). WaitForFenceValue e fenceValueForSignal s1)"

section \<open>Render\<close>

text \<open>\<^verbatim>\<open>DXGI_PRESENT_ALLOW_TEARING\<close> of dxgi1_5.h.\<close>
definition DXGI_PRESENT_ALLOW_TEARING :: u32 where
  "DXGI_PRESENT_ALLOW_TEARING = 0x200"

text \<open>\<^verbatim>\<open>UINT syncInterval = g_VSync ? 1 : 0;\<close>\<close>
definition syncInterval :: "state \<Rightarrow> u32" where
  "syncInterval s = (if g_VSync s then 1 else 0)"

text \<open>\<^verbatim>\<open>UINT presentFlags = g_TearingSupported && !g_VSync ? DXGI_PRESENT_ALLOW_TEARING : 0;\<close>\<close>
definition presentFlags :: "state \<Rightarrow> u32" where
  "presentFlags s = (if g_TearingSupported s \<and> \<not> g_VSync s then DXGI_PRESENT_ALLOW_TEARING else 0)"

text \<open>
  \<^verbatim>\<open>Render()\<close>. The results of the two \<^verbatim>\<open>Reset\<close> calls are not checked by the source;
  \<^verbatim>\<open>Close\<close>, \<^verbatim>\<open>Present\<close> and the queue's \<^verbatim>\<open>Signal\<close> are under \<^verbatim>\<open>ThrowIfFailed\<close>.
  \<open>idx\<close> is the value of \<open>g_CurrentBackBufferIndex\<close> on entry, which stays the index of
  every array access until the swap chain is asked again.
\<close>
definition Render :: "env \<Rightarrow> state \<Rightarrow> error + state" where
  "Render e s =
     (let idx = g_CurrentBackBufferIndex s in
      if g_NumFrames \<le> idx then Inl (OutOfBounds idx)
      else
        let backBuffer = g_BackBuffers s idx;
            s1 = call (CommandAllocator_Reset idx) s;
            s2 = call (CommandList_Reset idx) s1;
            s3 = call (ResourceBarrier backBuffer
                         D3D12_RESOURCE_STATE_PRESENT D3D12_RESOURCE_STATE_RENDER_TARGET) s2;
            s4 = call (ClearRenderTargetView idx) s3;
            s5 = call (ResourceBarrier backBuffer
                         D3D12_RESOURCE_STATE_RENDER_TARGET D3D12_RESOURCE_STATE_PRESENT) s4
        in andThen (ThrowIfFailed e CommandList_Close s5) (\<lambda>s6.
             let s7 = call ExecuteCommandLists s6
             in andThen (ThrowIfFailed e (Present (syncInterval s7) (presentFlags s7)) s7) (\<lambda>s8.
                  andThen (Signal e s8) (\<lambda>(v, s9).
                    let s10 = s9\<lparr>g_FrameFenceValues := (g_FrameFenceValues s9)(idx := v)\<rparr>;
                        s11 = (call GetCurrentBackBufferIndex s10)
                                \<lparr>g_CurrentBackBufferIndex := next_index e\<rparr>
                    in if g_NumFrames \<le> g_CurrentBackBufferIndex s11
                       then Inl (OutOfBounds (g_CurrentBackBufferIndex s11))
                       else WaitForFenceValue e
                              (g_FrameFenceValues s11 (g_CurrentBackBufferIndex s11)) s11))))"

section \<open>Resize\<close>

text \<open>
  The loop of \<^verbatim>\<open>UpdateRenderTargetViews\<close>:
  \<^verbatim>\<open>for (int i = 0; i < g_NumFrames; ++i)\<close>, with \<^verbatim>\<open>GetBuffer\<close> under \<^verbatim>\<open>ThrowIfFailed\<close>.
\<close>
function UpdateRenderTargetViews_loop :: "env \<Rightarrow> nat \<Rightarrow> state \<Rightarrow> error + state" where
  "UpdateRenderTargetViews_loop e i s =
     (if i < g_NumFrames
      then andThen (ThrowIfFailed e (GetBuffer i) s) (\<lambda>s1.
             let s2 = call (CreateRenderTargetView i) s1;
                 s3 = s2\<lparr>g_BackBuffers := (g_BackBuffers s2)(i := Some i)\<rparr>
             in UpdateRenderTargetViews_loop e (i + 1) s3)
      else Inr s)"
  by pat_completeness auto
termination
  by (relation "measure (\<lambda>(e, i, s). g_NumFrames - i)") auto

definition UpdateRenderTargetViews :: "env \<Rightarrow> state \<Rightarrow> error + state" where
  "UpdateRenderTargetViews e s = UpdateRenderTargetViews_loop e 0 s"

text \<open>
  The loop of \<^verbatim>\<open>Resize\<close>: release the reference to back buffer \<open>i\<close> and overwrite its
  fence value with the one of the current index, which is read anew in every iteration.
\<close>
function Resize_loop :: "nat \<Rightarrow> state \<Rightarrow> error + state" where
  "Resize_loop i s =
     (if i < g_NumFrames
      then let s1 = (call (BackBuffer_Reset i) s)\<lparr>g_BackBuffers := (g_BackBuffers s)(i := None)\<rparr>
           in if g_NumFrames \<le> g_CurrentBackBufferIndex s1
              then Inl (OutOfBounds (g_CurrentBackBufferIndex s1))
              else Resize_loop (i + 1)
                     (s1\<lparr>g_FrameFenceValues :=
                           (g_FrameFenceValues s1)
                             (i := g_FrameFenceValues s1 (g_CurrentBackBufferIndex s1))\<rparr>)
      else Inr s)"
  by pat_completeness auto
termination
  by (relation "measure (\<lambda>(i, s). g_NumFrames - i)") auto

text \<open>\<^verbatim>\<open>Resize(width, height)\<close>; \<^verbatim>\<open>std::max(1u, width)\<close> is the unsigned maximum.\<close>
definition Resize :: "env \<Rightarrow> u32 \<Rightarrow> u32 \<Rightarrow> state \<Rightarrow> error + state" where
  "Resize e width height s =
     (if g_ClientWidth s \<noteq> width \<or> g_ClientHeight s \<noteq> height
      then
        let s1 = s\<lparr>g_ClientWidth := max 1 width\<rparr>;
            s2 = s1\<lparr>g_ClientHeight := max 1 height\<rparr>
        in andThen (Flush e s2) (\<lambda>s3.
             andThen (Resize_loop 0 s3) (\<lambda>s4.
               andThen (ThrowIfFailed e SwapChain_GetDesc s4) (\<lambda>s5.
                 andThen (ThrowIfFailed e
                            (ResizeBuffers g_NumFrames (g_ClientWidth s5) (g_ClientHeight s5)) s5)
                   (\<lambda>s6.
                     let s7 = (call GetCurrentBackBufferIndex s6)
                                \<lparr>g_CurrentBackBufferIndex := next_index e\<rparr>
                     in UpdateRenderTargetViews e s7))))
      else Inr s)"

section \<open>SetFullscreen\<close>

text \<open>Window styles of WinUser.h.\<close>
definition WS_CAPTION :: u32 where "WS_CAPTION = 0x00C00000"
definition WS_SYSMENU :: u32 where "WS_SYSMENU = 0x00080000"
definition WS_THICKFRAME :: u32 where "WS_THICKFRAME = 0x00040000"
definition WS_MINIMIZEBOX :: u32 where "WS_MINIMIZEBOX = 0x00020000"
definition WS_MAXIMIZEBOX :: u32 where "WS_MAXIMIZEBOX = 0x00010000"
definition WS_OVERLAPPEDWINDOW :: u32 where
  "WS_OVERLAPPEDWINDOW =
     WS_CAPTION OR WS_SYSMENU OR WS_THICKFRAME OR WS_MINIMIZEBOX OR WS_MAXIMIZEBOX"

text \<open>
  \<^verbatim>\<open>SetFullscreen(fullscreen)\<close>. No Win32 result is checked. \<^verbatim>\<open>GetWindowRect\<close> writes the
  rectangle the window system reports into \<open>g_WindowRect\<close>.
\<close>
definition SetFullscreen :: "env \<Rightarrow> bool \<Rightarrow> state \<Rightarrow> state" where
  "SetFullscreen e fullscreen s =
     (if g_Fullscreen s \<noteq> fullscreen
      then
        let s1 = s\<lparr>g_Fullscreen := fullscreen\<rparr>
        in if g_Fullscreen s1
           then
             let s2 = (call GetWindowRect s1)\<lparr>g_WindowRect := window_rect e\<rparr>;
                 windowStyle = WS_OVERLAPPEDWINDOW AND
                   NOT (WS_CAPTION OR WS_SYSMENU OR WS_THICKFRAME OR WS_MINIMIZEBOX
                        OR WS_MAXIMIZEBOX);
                 s3 = call (SetWindowLongW windowStyle) s2;
                 s4 = call MonitorFromWindow s3;
                 s5 = call GetMonitorInfo s4;
                 rcMonitor = monitor_rect e;
                 s6 = call (SetWindowPos HWND_TOP
                              (rc_left rcMonitor) (rc_top rcMonitor)
                              (rc_right rcMonitor - rc_left rcMonitor)
                              (rc_bottom rcMonitor - rc_top rcMonitor)) s5
             in call (ShowWindow SW_MAXIMIZE) s6
           else
             let s2 = call (SetWindowLongW WS_OVERLAPPEDWINDOW) s1;
                 s3 = call (SetWindowPos HWND_NOTOPMOST
                              (rc_left (g_WindowRect s2)) (rc_top (g_WindowRect s2))
                              (rc_right (g_WindowRect s2) - rc_left (g_WindowRect s2))
                              (rc_bottom (g_WindowRect s2) - rc_top (g_WindowRect s2))) s2
             in call (ShowWindow SW_NORMAL) s3
      else s)"

section \<open>ParseCommandLineArguments\<close>

text \<open>
  Modelled from the C library: \<^verbatim>\<open>wcstol(str, nullptr, 10)\<close> skips white space, reads an
  optional sign and then decimal digits up to the first other character, gives 0 when there
  is no digit, and clamps to the range of \<^verbatim>\<open>long\<close>, which has 32 bits on Windows.
\<close>
definition is_space :: "char \<Rightarrow> bool" where
  "is_space c = (of_char c = (32::nat) \<or> (9 \<le> (of_char c :: nat) \<and> (of_char c :: nat) \<le> 13))"

definition digit_val :: "char \<Rightarrow> nat option" where
  "digit_val c =
     (let n = of_char c :: nat in if 48 \<le> n \<and> n \<le> 57 then Some (n - 48) else None)"

fun parse_digits :: "string \<Rightarrow> nat \<Rightarrow> nat" where
  "parse_digits [] acc = acc"
| "parse_digits (c # cs) acc =
     (case digit_val c of None \<Rightarrow> acc | Some d \<Rightarrow> parse_digits cs (acc * 10 + d))"

definition wcstol :: "string \<Rightarrow> int" where
  "wcstol str =
     (let s1 = dropWhile is_space str;
          neg = (s1 \<noteq> [] \<and> hd s1 = CHR ''-'');
          s2 = (if s1 \<noteq> [] \<and> (hd s1 = CHR ''-'' \<or> hd s1 = CHR ''+'') then tl s1 else s1);
          n = int (parse_digits s2 0)
      in if neg then max (- (2 ^ 31)) (- n) else min (2 ^ 31 - 1) n)"

text \<open>
  The body of the \<^verbatim>\<open>for\<close> loop at index \<open>i\<close>: three \<^verbatim>\<open>if\<close>s in a row, the first two
  of which advance \<open>i\<close> with \<^verbatim>\<open>argv[++i]\<close> before the next one reads \<^verbatim>\<open>argv[i]\<close>.
  Reading \<^verbatim>\<open>argv\<close> at \<open>argc\<close> or beyond is an \<open>OutOfBounds\<close> error. The assignment
  to a \<^verbatim>\<open>uint32_t\<close> keeps the low 32 bits of the \<^verbatim>\<open>long\<close>. The result is the index
  after the body and the new globals.
\<close>
definition ParseCommandLineArguments_body ::
  "string list \<Rightarrow> nat \<Rightarrow> state \<Rightarrow> error + (nat \<times> state)" where
  "ParseCommandLineArguments_body argv i s =
     andThen
       (if argv ! i = ''-w'' \<or> argv ! i = ''--width''
        then if i + 1 < length argv
             then Inr (i + 1, s\<lparr>g_ClientWidth := word_of_int (wcstol (argv ! (i + 1)))\<rparr>)
             else Inl (OutOfBounds (i + 1))
        else Inr (i, s))
       (\<lambda>(i1, s1).
          andThen
            (if argv ! i1 = ''-h'' \<or> argv ! i1 = ''--height''
             then if i1 + 1 < length argv
                  then Inr (i1 + 1,
                            s1\<lparr>g_ClientHeight := word_of_int (wcstol (argv ! (i1 + 1)))\<rparr>)
                  else Inl (OutOfBounds (i1 + 1))
             else Inr (i1, s1))
            (\<lambda>(i2, s2).
               if argv ! i2 = ''-warp'' \<or> argv ! i2 = ''--warp''
               then Inr (i2, s2\<lparr>g_UseWarp := True\<rparr>)
               else Inr (i2, s2)))"

text \<open>\<^verbatim>\<open>for (size_t i = 0; i < argc; ++i)\<close>, from index \<open>i\<close> on.\<close>
function ParseCommandLineArguments_loop :: "string list \<Rightarrow> nat \<Rightarrow> state \<Rightarrow> error + state" where
  "ParseCommandLineArguments_loop argv i s =
     (if i < length argv
      then case ParseCommandLineArguments_body argv i s of
             Inl x \<Rightarrow> Inl x
           | Inr (i', s') \<Rightarrow> ParseCommandLineArguments_loop argv (i' + 1) s'
      else Inr s)"
  by pat_completeness auto
termination
  by (relation "measure (\<lambda>(argv, i, s). length argv - i)")
     (auto simp: ParseCommandLineArguments_body_def andThen_def split: if_splits)

definition ParseCommandLineArguments :: "string list \<Rightarrow> state \<Rightarrow> error + state" where
  "ParseCommandLineArguments argv s = ParseCommandLineArguments_loop argv 0 s"

section \<open>GetAdapter\<close>

text \<open>What \<^verbatim>\<open>GetAdapter\<close> looks at in the description of an enumerated adapter.\<close>
record adapter_desc =
  software :: bool
  supports_d3d12 :: bool
  DedicatedVideoMemory :: u64

datatype adapter = WarpAdapter | HardwareAdapter nat | NullAdapter

text \<open>
  The enumeration loop of the hardware branch: adapter \<open>i\<close> replaces the choice so far when
  it is not a software adapter, a device can be created on it and its dedicated video memory
  is larger than the largest seen.
\<close>
fun GetAdapter_loop ::
  "env \<Rightarrow> adapter_desc list \<Rightarrow> nat \<Rightarrow> u64 \<Rightarrow> adapter \<Rightarrow> error + adapter" where
  "GetAdapter_loop e [] i maxDedicatedVideoMemory a = Inr a"
| "GetAdapter_loop e (d # ds) i maxDedicatedVideoMemory a =
     (if \<not> software d \<and> supports_d3d12 d \<and> maxDedicatedVideoMemory < DedicatedVideoMemory d
      then if failing e ComPtr_As then Inl (Failed ComPtr_As)
           else GetAdapter_loop e ds (i + 1) (DedicatedVideoMemory d) (HardwareAdapter i)
      else GetAdapter_loop e ds (i + 1) maxDedicatedVideoMemory a)"

definition GetAdapter :: "env \<Rightarrow> bool \<Rightarrow> adapter_desc list \<Rightarrow> error + adapter" where
  "GetAdapter e useWarp adapters =
     (if failing e CreateDXGIFactory2 then Inl (Failed CreateDXGIFactory2)
      else if useWarp
      then if failing e EnumWarpAdapter then Inl (Failed EnumWarpAdapter)
           else if failing e ComPtr_As then Inl (Failed ComPtr_As)
           else Inr WarpAdapter
      else GetAdapter_loop e adapters 0 0 NullAdapter)"

section \<open>WndProc and the message loop\<close>

datatype message =
    WM_PAINT
  | WM_SYSKEYDOWN u64
  | WM_KEYDOWN u64
  | WM_SYSCHAR
  | WM_SIZE
  | WM_DESTROY
  | WM_OTHER

text \<open>Virtual key codes of WinUser.h; \<^verbatim>\<open>'V'\<close> is 0x56.\<close>
definition VK_ESCAPE :: u64 where "VK_ESCAPE = 0x1B"
definition VK_RETURN :: u64 where "VK_RETURN = 0x0D"
definition VK_F11 :: u64 where "VK_F11 = 0x7A"

text \<open>
  The inner \<^verbatim>\<open>switch (wParam)\<close>. The label \<^verbatim>\<open>case VK_F11:\<close> stands inside the body of
  \<^verbatim>\<open>if (alt)\<close> under \<^verbatim>\<open>case VK_RETURN:\<close>, so F11 reaches \<^verbatim>\<open>SetFullscreen\<close> whatever
  \<open>alt\<close> is and Enter only with Alt held.
\<close>
definition OnKeyDown :: "env \<Rightarrow> u64 \<Rightarrow> state \<Rightarrow> state" where
  "OnKeyDown e wParam s =
     (if wParam = 0x56 then s\<lparr>g_VSync := \<not> g_VSync s\<rparr>
      else if wParam = VK_ESCAPE then call PostQuitMessage s
      else if wParam = VK_RETURN
      then if alt_down e then SetFullscreen e (\<not> g_Fullscreen s) s else s
      else if wParam = VK_F11 then SetFullscreen e (\<not> g_Fullscreen s) s
      else s)"

text \<open>
  \<^verbatim>\<open>WndProc\<close>. \<^verbatim>\<open>Update()\<close> only keeps a frame counter and a clock for the debug output
  and touches none of the globals, so \<^verbatim>\<open>WM_PAINT\<close> is \<^verbatim>\<open>Render()\<close>.
\<close>
definition WndProc :: "env \<Rightarrow> message \<Rightarrow> state \<Rightarrow> error + state" where
  "WndProc e m s =
     (if g_IsInitialized s
      then case m of
             WM_PAINT \<Rightarrow> Render e s
           | WM_SYSKEYDOWN wParam \<Rightarrow> Inr (OnKeyDown e wParam s)
           | WM_KEYDOWN wParam \<Rightarrow> Inr (OnKeyDown e wParam s)
           | WM_SYSCHAR \<Rightarrow> Inr s
           | WM_SIZE \<Rightarrow>
               (let s1 = call GetClientRect s;
                    clientRect = client_rect e;
                    width = rc_right clientRect - rc_left clientRect;
                    height = rc_bottom clientRect - rc_top clientRect
                in Resize e width height s1)
           | WM_DESTROY \<Rightarrow> Inr (call PostQuitMessage s)
           | WM_OTHER \<Rightarrow> Inr (call DefWindowProcW s)
      else Inr (call DefWindowProcW s))"

text \<open>
  What happens between start-up and exit: the message loop dispatches a message to
  \<^verbatim>\<open>WndProc\<close>, or the GPU, which runs on its own, reaches some more of the queued signals.
\<close>
datatype event = Message env message | GpuProgress nat

definition step :: "event \<Rightarrow> state \<Rightarrow> error + state" where
  "step ev s =
     (case ev of
        Message e m \<Rightarrow> WndProc e m s
      | GpuProgress k \<Rightarrow>
          (let (c, ps) = gpu_retire k (fence_completed s) (queue_signals s)
           in Inr (s\<lparr>fence_completed := c, queue_signals := ps\<rparr>)))"

fun run :: "event list \<Rightarrow> state \<Rightarrow> error + state" where
  "run [] s = Inr s"
| "run (ev # evs) s = andThen (step ev s) (run evs)"

text \<open>The loop of \<^verbatim>\<open>wWinMain\<close> that creates one command allocator per frame.\<close>
function CreateCommandAllocators_loop :: "env \<Rightarrow> nat \<Rightarrow> state \<Rightarrow> error + state" where
  "CreateCommandAllocators_loop e i s =
     (if i < g_NumFrames
      then andThen (ThrowIfFailed e (CreateCommandAllocator i) s)
             (\<lambda>s1. CreateCommandAllocators_loop e (i + 1) s1)
      else Inr s)"
  by pat_completeness auto
termination
  by (relation "measure (\<lambda>(e, i, s). g_NumFrames - i)") auto

text \<open>
  \<^verbatim>\<open>wWinMain\<close> up to the message loop, on the command line \<open>argv\<close> and the adapters the
  factory enumerates. Registering the window class and creating the window are left to the
  window system; the debug layer is compiled in only under \<^verbatim>\<open>_DEBUG\<close>.
\<close>
definition wWinMain_startup :: "env \<Rightarrow> string list \<Rightarrow> adapter_desc list \<Rightarrow> error + state" where
  "wWinMain_startup e argv adapters =
     andThen (ParseCommandLineArguments argv globals0) (\<lambda>s1.
       let s2 = s1\<lparr>g_TearingSupported := tearing_support e\<rparr>;
           s3 = (call GetWindowRect s2)\<lparr>g_WindowRect := window_rect e\<rparr>
       in andThen (GetAdapter e (g_UseWarp s3) adapters) (\<lambda>dxgiAdapter4.
          andThen (ThrowIfFailed e D3D12CreateDevice s3) (\<lambda>s4.
          andThen (ThrowIfFailed e CreateCommandQueue s4) (\<lambda>s5.
          andThen (ThrowIfFailed e CreateDXGIFactory2 s5) (\<lambda>s6.
          andThen (ThrowIfFailed e CreateSwapChainForHwnd s6) (\<lambda>s7.
          andThen (ThrowIfFailed e MakeWindowAssociation s7) (\<lambda>s8.
          andThen (ThrowIfFailed e ComPtr_As s8) (\<lambda>s9.
            let s10 = (call GetCurrentBackBufferIndex s9)
                        \<lparr>g_CurrentBackBufferIndex := next_index e\<rparr>
            in andThen (ThrowIfFailed e CreateDescriptorHeap s10) (\<lambda>s11.
               andThen (UpdateRenderTargetViews e s11) (\<lambda>s12.
               andThen (CreateCommandAllocators_loop e 0 s12) (\<lambda>s13.
                 if g_NumFrames \<le> g_CurrentBackBufferIndex s13
                 then Inl (OutOfBounds (g_CurrentBackBufferIndex s13))
                 else
                   andThen (ThrowIfFailed e CreateCommandList s13) (\<lambda>s14.
                   andThen (ThrowIfFailed e CommandList_Close s14) (\<lambda>s15.
                   andThen (ThrowIfFailed e CreateFence s15) (\<lambda>s16.
                     Inr (call (ShowWindow SW_SHOW) (s16\<lparr>g_IsInitialized := True\<rparr>))))))))))))))))"

section \<open>Observations used to state the properties\<close>

text \<open>
  The calls \<^verbatim>\<open>WaitForFenceValue\<close> makes when asked to wait for \<open>v\<close> in state \<open>s\<close>: it
  always reads the fence, and sets the event and blocks only if the value read is below \<open>v\<close>.
\<close>
definition wait_calls :: "env \<Rightarrow> u64 \<Rightarrow> state \<Rightarrow> api_call list" where
  "wait_calls e v s =
     GetCompletedValue #
       (if fst (gpu_retire (gpu_steps e) (fence_completed s) (queue_signals s)) < v
        then [SetEventOnCompletion v, WaitForSingleObject] else [])"

text \<open>
  What \<^verbatim>\<open>WaitForFenceValue\<close> leaves of the fence and the queued signals: the GPU's own
  progress up to the read, then the blocking wait if the value read is too low.
\<close>
definition fence_after_wait ::
  "nat \<Rightarrow> u64 \<Rightarrow> u64 \<Rightarrow> u64 list \<Rightarrow> (u64 \<times> u64 list) option" where
  "fence_after_wait k v c ps =
     (let (c1, ps1) = gpu_retire k c ps
      in if c1 < v then gpu_reach v c1 ps1 else Some (c1, ps1))"

text \<open>The arguments of the \<^verbatim>\<open>Present\<close> calls in a trace, oldest first.\<close>
fun presents :: "api_call list \<Rightarrow> (u32 \<times> u32) list" where
  "presents [] = []"
| "presents (Present interval flags # cs) = (interval, flags) # presents cs"
| "presents (c # cs) = presents cs"

text \<open>
  Consecutive render cycles, one per element of the list, with nothing in between. The result
  lists, per cycle, the fence value the cycle stored for the slot that was current when the
  cycle began, and ends with the final state.
\<close>
fun render_cycles :: "env list \<Rightarrow> state \<Rightarrow> error + (u64 list \<times> state)" where
  "render_cycles [] s = Inr ([], s)"
| "render_cycles (e # es) s =
     andThen (Render e s) (\<lambda>s1.
       andThen (render_cycles es s1) (\<lambda>(ws, s2).
         Inr (g_FrameFenceValues s1 (g_CurrentBackBufferIndex s) # ws, s2)))"

text \<open>
  The order the fence protocol keeps: the fence is below every queued signal, the queued
  signals increase, none is above the CPU-side counter, and the slot that is current, when
  the index is one of the \<open>g_NumFrames\<close> slots, has its recorded fence value reached.
\<close>
definition fence_ordered :: "state \<Rightarrow> bool" where
  "fence_ordered s \<longleftrightarrow>
     sorted_wrt (<) (fence_completed s # queue_signals s) \<and>
     list_all (\<lambda>v. v \<le> g_FenceValue s) (fence_completed s # queue_signals s) \<and>
     (g_CurrentBackBufferIndex s < g_NumFrames \<longrightarrow>
        g_FrameFenceValues s (g_CurrentBackBufferIndex s) \<le> fence_completed s)"

text \<open>
  What keeps the wait at the end of a frame from blocking for ever: the current index is one
  of the slots, and the fence value recorded for each slot has been reached or is the value
  of a signal still in the queue.
\<close>
definition slots_pending :: "state \<Rightarrow> bool" where
  "slots_pending s \<longleftrightarrow>
     g_CurrentBackBufferIndex s < g_NumFrames \<and>
     (\<forall>i<g_NumFrames. g_FrameFenceValues s i \<le> fence_completed s \<or>
                       g_FrameFenceValues s i \<in> set (queue_signals s))"

text \<open>
  Whether \<^verbatim>\<open>wcstol\<close> finds a number in a string: after the white space and the optional
  sign there is a decimal digit.
\<close>
definition starts_with_number :: "string \<Rightarrow> bool" where
  "starts_with_number str =
     (let s1 = dropWhile is_space str;
          s2 = (if s1 \<noteq> [] \<and> (hd s1 = CHR ''-'' \<or> hd s1 = CHR ''+'') then tl s1 else s1)
      in s2 \<noteq> [] \<and> digit_val (hd s2) \<noteq> None)"

text \<open>
  The client size after \<^verbatim>\<open>ParseCommandLineArguments\<close> has run on the static initial
  values of the globals, if it returns.
\<close>
definition parsed_size :: "string list \<Rightarrow> (u32 \<times> u32) option" where
  "parsed_size argv =
     (case ParseCommandLineArguments argv globals0 of
        Inl _ \<Rightarrow> None
      | Inr s \<Rightarrow> Some (g_ClientWidth s, g_ClientHeight s))"

subsection \<open>Concrete inputs\<close>

text \<open>Collaborators that never fail, with a swap chain that answers index 1.\<close>
definition quiet_env :: env where
  "quiet_env = \<lparr>
     failing = (\<lambda>_. False),
     next_index = 1,
     gpu_steps = 0,
     window_rect = \<lparr>rc_left = 100, rc_top = 100, rc_right = 1380, rc_bottom = 820\<rparr>,
     monitor_rect = \<lparr>rc_left = 0, rc_top = 0, rc_right = 1920, rc_bottom = 1080\<rparr>,
     client_rect = \<lparr>rc_left = 0, rc_top = 0, rc_right = 1280, rc_bottom = 720\<rparr>,
     alt_down = False,
     tearing_support = False \<rparr>"

text \<open>The globals once start-up is over, as \<open>wWinMain_startup quiet_env\<close> leaves them.\<close>
definition started_state :: state where
  "started_state = globals0\<lparr>
     g_IsInitialized := True,
     g_WindowRect := window_rect quiet_env,
     g_BackBuffers := (\<lambda>_. None)(0 := Some 0, 1 := Some 1),
     g_CurrentBackBufferIndex := 1,
     calls := [GetWindowRect, D3D12CreateDevice, CreateCommandQueue, CreateDXGIFactory2,
               CreateSwapChainForHwnd, MakeWindowAssociation, ComPtr_As,
               GetCurrentBackBufferIndex, CreateDescriptorHeap,
               GetBuffer 0, CreateRenderTargetView 0, GetBuffer 1, CreateRenderTargetView 1,
               CreateCommandAllocator 0, CreateCommandAllocator 1, CreateCommandList,
               CommandList_Close, CreateFence, ShowWindow SW_SHOW]\<rparr>"

text \<open>\<open>started_state\<close> with V-Sync switched off by the V key.\<close>
definition vsync_off_state :: state where
  "vsync_off_state = started_state\<lparr>g_VSync := False\<rparr>"

text \<open>The globals after one frame has been rendered and the swap chain has moved to slot 0.\<close>
definition first_frame_state :: state where
  "first_frame_state =
     (case Render (quiet_env\<lparr>next_index := 0\<rparr>) started_state of
        Inr s \<Rightarrow> s
      | Inl _ \<Rightarrow> started_state)"

text \<open>The \<^verbatim>\<open>Present\<close> calls in the trace after one \<^verbatim>\<open>Render\<close>, none if it does not return.\<close>
definition Render_presents :: "env \<Rightarrow> state \<Rightarrow> (u32 \<times> u32) list" where
  "Render_presents e s = (case Render e s of Inl _ \<Rightarrow> [] | Inr s' \<Rightarrow> presents (calls s'))"

text \<open>Three enumerated adapters: a software one, and two hardware ones of different size.\<close>
definition example_adapters :: "adapter_desc list" where
  "example_adapters =
     [\<lparr>software = True, supports_d3d12 = True, DedicatedVideoMemory = 0\<rparr>,
      \<lparr>software = False, supports_d3d12 = True, DedicatedVideoMemory = 4096\<rparr>,
      \<lparr>software = False, supports_d3d12 = True, DedicatedVideoMemory = 8192\<rparr>]"

section \<open>Basic facts\<close>

declare Resize_loop.simps [simp del]
declare UpdateRenderTargetViews_loop.simps [simp del]
declare ParseCommandLineArguments_loop.simps [simp del]
declare CreateCommandAllocators_loop.simps [simp del]

lemma andThen_Inr_iff: "andThen r f = Inr y \<longleftrightarrow> (\<exists>a. r = Inr a \<and> f a = Inr y)"
  by (cases r) (simp_all add: andThen_def)

lemma andThen_Inr [simp]: "andThen (Inr a) f = f a"
  by (simp add: andThen_def)

lemma andThen_Inl [simp]: "andThen (Inl x) f = Inl x"
  by (simp add: andThen_def)

lemma ThrowIfFailed_Inr_iff:
  "ThrowIfFailed e c s = Inr s' \<longleftrightarrow> \<not> failing e c \<and> s' = call c s"
  by (auto simp: ThrowIfFailed_def)

lemma Signal_Inr_iff:
  "Signal e s = Inr (v, s') \<longleftrightarrow>
     \<not> failing e (CommandQueue_Signal (g_FenceValue s + 1)) \<and> v = g_FenceValue s + 1 \<and>
     s' = s\<lparr>g_FenceValue := g_FenceValue s + 1,
            queue_signals := queue_signals s @ [g_FenceValue s + 1],
            calls := calls s @ [CommandQueue_Signal (g_FenceValue s + 1)]\<rparr>"
  by (auto simp: Signal_def Let_def ThrowIfFailed_def call_def)

lemma gpu_reach_Some: "gpu_reach v c ps = Some (c', ps') \<Longrightarrow> v \<le> c'"
  by (induction v c ps rule: gpu_reach.induct) (auto split: if_splits)

lemma fence_after_wait_reached: "fence_after_wait k v c ps = Some (c', ps') \<Longrightarrow> v \<le> c'"
  by (auto simp: fence_after_wait_def split: prod.splits if_splits dest: gpu_reach_Some)

lemma WaitForFenceValue_Inr:
  assumes "WaitForFenceValue e v s = Inr s'"
  shows "\<exists>c ps. fence_after_wait (gpu_steps e) v (fence_completed s) (queue_signals s) = Some (c, ps)
           \<and> s' = s\<lparr>fence_completed := c, queue_signals := ps,
                        calls := calls s @ wait_calls e v s\<rparr>"
  using assms
  by (auto simp: WaitForFenceValue_def wait_calls_def fence_after_wait_def Let_def call_def
        ThrowIfFailed_def andThen_def split: prod.splits if_splits option.splits)

lemma Render_Inr:
  assumes "Render e s = Inr s'"
  shows "\<exists>c ps.
      fence_after_wait (gpu_steps e)
        (((g_FrameFenceValues s)(g_CurrentBackBufferIndex s := g_FenceValue s + 1)) (next_index e))
        (fence_completed s) (queue_signals s @ [g_FenceValue s + 1]) = Some (c, ps) \<and>
      s' = s\<lparr>g_FenceValue := g_FenceValue s + 1,
             g_FrameFenceValues :=
               (g_FrameFenceValues s)(g_CurrentBackBufferIndex s := g_FenceValue s + 1),
             g_CurrentBackBufferIndex := next_index e,
             fence_completed := c, queue_signals := ps,
             calls := calls s @
               [CommandAllocator_Reset (g_CurrentBackBufferIndex s),
                CommandList_Reset (g_CurrentBackBufferIndex s),
                ResourceBarrier (g_BackBuffers s (g_CurrentBackBufferIndex s))
                  D3D12_RESOURCE_STATE_PRESENT D3D12_RESOURCE_STATE_RENDER_TARGET,
                ClearRenderTargetView (g_CurrentBackBufferIndex s),
                ResourceBarrier (g_BackBuffers s (g_CurrentBackBufferIndex s))
                  D3D12_RESOURCE_STATE_RENDER_TARGET D3D12_RESOURCE_STATE_PRESENT,
                CommandList_Close,
                ExecuteCommandLists,
                Present (syncInterval s) (presentFlags s),
                CommandQueue_Signal (g_FenceValue s + 1),
                GetCurrentBackBufferIndex] @
               wait_calls e
                 (((g_FrameFenceValues s)(g_CurrentBackBufferIndex s := g_FenceValue s + 1))
                    (next_index e))
                 (s\<lparr>queue_signals := queue_signals s @ [g_FenceValue s + 1]\<rparr>)\<rparr> \<and>
      g_CurrentBackBufferIndex s < g_NumFrames \<and> next_index e < g_NumFrames"
proof -
  let ?idx = "g_CurrentBackBufferIndex s"
  let ?v = "g_FenceValue s + 1"
  let ?s5 = "s\<lparr>calls := calls s @
               [CommandAllocator_Reset ?idx, CommandList_Reset ?idx,
                ResourceBarrier (g_BackBuffers s ?idx)
                  D3D12_RESOURCE_STATE_PRESENT D3D12_RESOURCE_STATE_RENDER_TARGET,
                ClearRenderTargetView ?idx,
                ResourceBarrier (g_BackBuffers s ?idx)
                  D3D12_RESOURCE_STATE_RENDER_TARGET D3D12_RESOURCE_STATE_PRESENT]\<rparr>"
  from assms have idx: "?idx < g_NumFrames"
    by (auto simp: Render_def Let_def split: if_splits)
  with assms obtain s6 s8 v s9 where
    c: "ThrowIfFailed e CommandList_Close ?s5 = Inr s6"
    and p: "ThrowIfFailed e (Present (syncInterval (call ExecuteCommandLists s6))
              (presentFlags (call ExecuteCommandLists s6))) (call ExecuteCommandLists s6) = Inr s8"
    and sg: "Signal e s8 = Inr (v, s9)"
    and rest: "(let s10 = s9\<lparr>g_FrameFenceValues := (g_FrameFenceValues s9)(?idx := v)\<rparr>;
                        s11 = (call GetCurrentBackBufferIndex s10)
                                \<lparr>g_CurrentBackBufferIndex := next_index e\<rparr>
                    in if g_NumFrames \<le> g_CurrentBackBufferIndex s11
                       then Inl (OutOfBounds (g_CurrentBackBufferIndex s11))
                       else WaitForFenceValue e
                              (g_FrameFenceValues s11 (g_CurrentBackBufferIndex s11)) s11) = Inr s'"
    by (auto simp: Render_def Let_def andThen_Inr_iff call_def)
  from c have s6: "s6 = call CommandList_Close ?s5" by (simp add: ThrowIfFailed_Inr_iff)
  from p have s8: "s8 = call (Present (syncInterval s) (presentFlags s)) (call ExecuteCommandLists s6)"
    by (simp add: ThrowIfFailed_Inr_iff s6 call_def syncInterval_def presentFlags_def)
  from sg have v: "v = g_FenceValue s8 + 1"
    and s9: "s9 = s8\<lparr>g_FenceValue := g_FenceValue s8 + 1,
            queue_signals := queue_signals s8 @ [g_FenceValue s8 + 1],
            calls := calls s8 @ [CommandQueue_Signal (g_FenceValue s8 + 1)]\<rparr>"
    by (simp_all add: Signal_Inr_iff)
  let ?s11 = "(call GetCurrentBackBufferIndex (s9\<lparr>g_FrameFenceValues := (g_FrameFenceValues s9)(?idx := v)\<rparr>))
                                \<lparr>g_CurrentBackBufferIndex := next_index e\<rparr>"
  from rest have nxt: "next_index e < g_NumFrames"
    and w: "WaitForFenceValue e (g_FrameFenceValues ?s11 (g_CurrentBackBufferIndex ?s11)) ?s11 = Inr s'"
    by (auto simp: Let_def call_def split: if_splits)
  from WaitForFenceValue_Inr [OF w] obtain c ps where
    fw: "fence_after_wait (gpu_steps e) (g_FrameFenceValues ?s11 (g_CurrentBackBufferIndex ?s11))
           (fence_completed ?s11) (queue_signals ?s11) = Some (c, ps)"
    and s': "s' = ?s11\<lparr>fence_completed := c, queue_signals := ps,
                        calls := calls ?s11 @
                          wait_calls e (g_FrameFenceValues ?s11 (g_CurrentBackBufferIndex ?s11)) ?s11\<rparr>"
    by blast
  have wc: "wait_calls e x ?s11 = wait_calls e x (s\<lparr>queue_signals := queue_signals s @ [?v]\<rparr>)" for x
    by (simp add: wait_calls_def call_def v s9 s8 s6)
  from fw have "fence_after_wait (gpu_steps e)
        (((g_FrameFenceValues s)(?idx := ?v)) (next_index e))
        (fence_completed s) (queue_signals s @ [?v]) = Some (c, ps)"
    by (simp add: call_def v s9 s8 s6)
  moreover have "s' = s\<lparr>g_FenceValue := ?v,
             g_FrameFenceValues := (g_FrameFenceValues s)(?idx := ?v),
             g_CurrentBackBufferIndex := next_index e,
             fence_completed := c, queue_signals := ps,
             calls := calls s @
               [CommandAllocator_Reset ?idx, CommandList_Reset ?idx,
                ResourceBarrier (g_BackBuffers s ?idx)
                  D3D12_RESOURCE_STATE_PRESENT D3D12_RESOURCE_STATE_RENDER_TARGET,
                ClearRenderTargetView ?idx,
                ResourceBarrier (g_BackBuffers s ?idx)
                  D3D12_RESOURCE_STATE_RENDER_TARGET D3D12_RESOURCE_STATE_PRESENT,
                CommandList_Close, ExecuteCommandLists,
                Present (syncInterval s) (presentFlags s),
                CommandQueue_Signal ?v, GetCurrentBackBufferIndex] @
               wait_calls e (((g_FrameFenceValues s)(?idx := ?v)) (next_index e))
                 (s\<lparr>queue_signals := queue_signals s @ [?v]\<rparr>)\<rparr>"
    unfolding s' wc by (simp add: call_def v s9 s8 s6)
  ultimately show ?thesis using idx nxt by blast
qed

lemma Flush_Inr:
  assumes "Flush e s = Inr s'"
  shows "\<exists>c ps.
      fence_after_wait (gpu_steps e) (g_FenceValue s + 1)
        (fence_completed s) (queue_signals s @ [g_FenceValue s + 1]) = Some (c, ps) \<and>
      s' = s\<lparr>g_FenceValue := g_FenceValue s + 1,
             fence_completed := c, queue_signals := ps,
             calls := calls s @ CommandQueue_Signal (g_FenceValue s + 1) #
               wait_calls e (g_FenceValue s + 1)
                 (s\<lparr>queue_signals := queue_signals s @ [g_FenceValue s + 1]\<rparr>)\<rparr>"
proof -
  from assms obtain v s1 where s1: "Signal e s = Inr (v, s1)"
    and w: "WaitForFenceValue e v s1 = Inr s'"
    by (auto simp: Flush_def andThen_Inr_iff)
  from s1 have v: "v = g_FenceValue s + 1"
    and s1_eq: "s1 = s\<lparr>g_FenceValue := g_FenceValue s + 1,
            queue_signals := queue_signals s @ [g_FenceValue s + 1],
            calls := calls s @ [CommandQueue_Signal (g_FenceValue s + 1)]\<rparr>"
    by (simp_all add: Signal_Inr_iff)
  from WaitForFenceValue_Inr [OF w] obtain c ps where
    "fence_after_wait (gpu_steps e) v (fence_completed s1) (queue_signals s1) = Some (c, ps)"
    "s' = s1\<lparr>fence_completed := c, queue_signals := ps, calls := calls s1 @ wait_calls e v s1\<rparr>"
    by blast
  then show ?thesis
    unfolding v s1_eq by (auto simp: wait_calls_def)
qed

lemma Resize_loop_Inr:
  "Resize_loop 0 s = Inr s' \<longleftrightarrow>
     g_CurrentBackBufferIndex s < g_NumFrames \<and>
     s' = s\<lparr>calls := calls s @ [BackBuffer_Reset 0, BackBuffer_Reset 1],
            g_BackBuffers := (g_BackBuffers s)(0 := None, 1 := None),
            g_FrameFenceValues := (g_FrameFenceValues s)
               (0 := g_FrameFenceValues s (g_CurrentBackBufferIndex s),
                1 := g_FrameFenceValues s (g_CurrentBackBufferIndex s))\<rparr>"
  by (cases "g_CurrentBackBufferIndex s = 0")
     (auto simp: Resize_loop.simps g_NumFrames_def call_def Let_def)

lemma UpdateRenderTargetViews_Inr:
  "UpdateRenderTargetViews e s = Inr s' \<longleftrightarrow>
     \<not> failing e (GetBuffer 0) \<and> \<not> failing e (GetBuffer 1) \<and>
     s' = s\<lparr>calls := calls s @ [GetBuffer 0, CreateRenderTargetView 0,
                                  GetBuffer 1, CreateRenderTargetView 1],
            g_BackBuffers := (g_BackBuffers s)(0 := Some 0, 1 := Some 1)\<rparr>"
  by (auto simp: UpdateRenderTargetViews_def UpdateRenderTargetViews_loop.simps
        g_NumFrames_def call_def ThrowIfFailed_def Let_def andThen_def split: if_splits)

lemma Resize_Inr:
  assumes "Resize e width height s = Inr s'"
    and "g_ClientWidth s \<noteq> width \<or> g_ClientHeight s \<noteq> height"
  shows "\<exists>c ps.
      fence_after_wait (gpu_steps e) (g_FenceValue s + 1)
        (fence_completed s) (queue_signals s @ [g_FenceValue s + 1]) = Some (c, ps) \<and>
      s' = s\<lparr>g_ClientWidth := max 1 width, g_ClientHeight := max 1 height,
            g_FenceValue := g_FenceValue s + 1,
            fence_completed := c, queue_signals := ps,
            g_FrameFenceValues := (g_FrameFenceValues s)
               (0 := g_FrameFenceValues s (g_CurrentBackBufferIndex s),
                1 := g_FrameFenceValues s (g_CurrentBackBufferIndex s)),
            g_CurrentBackBufferIndex := next_index e,
            g_BackBuffers := (g_BackBuffers s)(0 := Some 0, 1 := Some 1),
            calls := calls s @ CommandQueue_Signal (g_FenceValue s + 1) #
              wait_calls e (g_FenceValue s + 1)
                (s\<lparr>queue_signals := queue_signals s @ [g_FenceValue s + 1]\<rparr>) @
              [BackBuffer_Reset 0, BackBuffer_Reset 1, SwapChain_GetDesc,
               ResizeBuffers g_NumFrames (max 1 width) (max 1 height),
               GetCurrentBackBufferIndex,
               GetBuffer 0, CreateRenderTargetView 0, GetBuffer 1, CreateRenderTargetView 1]\<rparr>
      \<and> g_CurrentBackBufferIndex s < g_NumFrames"
proof -
  let ?s2 = "s\<lparr>g_ClientWidth := max 1 width, g_ClientHeight := max 1 height\<rparr>"
  let ?s7 = "\<lambda>s6. (call GetCurrentBackBufferIndex s6)\<lparr>g_CurrentBackBufferIndex := next_index e\<rparr>"
  from assms obtain s3 s4 s5 s6 where
    f: "Flush e ?s2 = Inr s3" and l: "Resize_loop 0 s3 = Inr s4"
    and d: "ThrowIfFailed e SwapChain_GetDesc s4 = Inr s5"
    and r: "ThrowIfFailed e (ResizeBuffers g_NumFrames (g_ClientWidth s5) (g_ClientHeight s5)) s5
              = Inr s6"
    and u: "UpdateRenderTargetViews e (?s7 s6) = Inr s'"
    by (auto simp: Resize_def Let_def andThen_Inr_iff)
  from Flush_Inr [OF f] obtain c ps where
    fw: "fence_after_wait (gpu_steps e) (g_FenceValue ?s2 + 1)
           (fence_completed ?s2) (queue_signals ?s2 @ [g_FenceValue ?s2 + 1]) = Some (c, ps)"
    and s3: "s3 = ?s2\<lparr>g_FenceValue := g_FenceValue ?s2 + 1,
                        fence_completed := c, queue_signals := ps,
                        calls := calls ?s2 @ CommandQueue_Signal (g_FenceValue ?s2 + 1) #
                          wait_calls e (g_FenceValue ?s2 + 1)
                            (?s2\<lparr>queue_signals := queue_signals ?s2 @ [g_FenceValue ?s2 + 1]\<rparr>)\<rparr>"
    by blast
  have wc: "wait_calls e v (s\<lparr>g_ClientWidth := a, g_ClientHeight := b, queue_signals := q\<rparr>)
            = wait_calls e v (s\<lparr>queue_signals := q\<rparr>)" for v a b q
    by (simp add: wait_calls_def)
  from l have idx: "g_CurrentBackBufferIndex s3 < g_NumFrames"
    and s4: "s4 = s3\<lparr>calls := calls s3 @ [BackBuffer_Reset 0, BackBuffer_Reset 1],
            g_BackBuffers := (g_BackBuffers s3)(0 := None, 1 := None),
            g_FrameFenceValues := (g_FrameFenceValues s3)
               (0 := g_FrameFenceValues s3 (g_CurrentBackBufferIndex s3),
                1 := g_FrameFenceValues s3 (g_CurrentBackBufferIndex s3))\<rparr>"
    by (simp_all add: Resize_loop_Inr)
  from d have s5: "s5 = call SwapChain_GetDesc s4" by (simp add: ThrowIfFailed_Inr_iff)
  from r have s6: "s6 = call (ResizeBuffers g_NumFrames (g_ClientWidth s5) (g_ClientHeight s5)) s5"
    by (simp add: ThrowIfFailed_Inr_iff)
  from u have s': "s' = (?s7 s6)
       \<lparr>calls := calls (?s7 s6)
           @ [GetBuffer 0, CreateRenderTargetView 0, GetBuffer 1, CreateRenderTargetView 1],
        g_BackBuffers := (g_BackBuffers (?s7 s6))(0 := Some 0, 1 := Some 1)\<rparr>"
    by (simp add: UpdateRenderTargetViews_Inr)
  have "s' = s\<lparr>g_ClientWidth := max 1 width, g_ClientHeight := max 1 height,
            g_FenceValue := g_FenceValue s + 1,
            fence_completed := c, queue_signals := ps,
            g_FrameFenceValues := (g_FrameFenceValues s)
               (0 := g_FrameFenceValues s (g_CurrentBackBufferIndex s),
                1 := g_FrameFenceValues s (g_CurrentBackBufferIndex s)),
            g_CurrentBackBufferIndex := next_index e,
            g_BackBuffers := (g_BackBuffers s)(0 := Some 0, 1 := Some 1),
            calls := calls s @ CommandQueue_Signal (g_FenceValue s + 1) #
              wait_calls e (g_FenceValue s + 1)
                (s\<lparr>queue_signals := queue_signals s @ [g_FenceValue s + 1]\<rparr>) @
              [BackBuffer_Reset 0, BackBuffer_Reset 1, SwapChain_GetDesc,
               ResizeBuffers g_NumFrames (max 1 width) (max 1 height),
               GetCurrentBackBufferIndex,
               GetBuffer 0, CreateRenderTargetView 0, GetBuffer 1, CreateRenderTargetView 1]\<rparr>"
    unfolding s' s6 s5 s4 s3 by (simp add: call_def wc)
  moreover from fw have "fence_after_wait (gpu_steps e) (g_FenceValue s + 1)
        (fence_completed s) (queue_signals s @ [g_FenceValue s + 1]) = Some (c, ps)" by simp
  moreover from idx have "g_CurrentBackBufferIndex s < g_NumFrames" by (simp add: s3)
  ultimately show ?thesis by blast
qed

lemma presents_append: "presents (xs @ ys) = presents xs @ presents ys"
  by (induction xs rule: presents.induct) simp_all

lemma presents_wait_calls: "presents (wait_calls e v s) = []"
  by (simp add: wait_calls_def)

lemma startup_quiet:
  "wWinMain_startup quiet_env [''DX12Renderer.exe''] [] = Inr started_state"
  by (simp add: wWinMain_startup_def ParseCommandLineArguments_def
        ParseCommandLineArguments_loop.simps ParseCommandLineArguments_body_def
        GetAdapter_def ThrowIfFailed_def call_def Let_def quiet_env_def globals0_def
        UpdateRenderTargetViews_def UpdateRenderTargetViews_loop.simps
        CreateCommandAllocators_loop.simps g_NumFrames_def started_state_def)

lemma WaitForFenceValue_returns:
  assumes "\<not> failing e (SetEventOnCompletion v)"
    and "fence_after_wait (gpu_steps e) v (fence_completed s) (queue_signals s) = Some (c, ps)"
  shows "\<exists>s'. WaitForFenceValue e v s = Inr s'"
  using assms
  by (auto simp: WaitForFenceValue_def fence_after_wait_def Let_def ThrowIfFailed_def call_def
        split: prod.splits)

lemma syncInterval_calls [simp]: "syncInterval (s\<lparr>calls := cs\<rparr>) = syncInterval s"
  by (simp add: syncInterval_def)

lemma presentFlags_calls [simp]: "presentFlags (s\<lparr>calls := cs\<rparr>) = presentFlags s"
  by (simp add: presentFlags_def)

lemma Render_returns:
  assumes ok: "\<And>c. \<not> failing e c"
    and idx: "g_CurrentBackBufferIndex s < g_NumFrames" and nxt: "next_index e < g_NumFrames"
    and fw: "fence_after_wait (gpu_steps e)
        (((g_FrameFenceValues s)(g_CurrentBackBufferIndex s := g_FenceValue s + 1)) (next_index e))
        (fence_completed s) (queue_signals s @ [g_FenceValue s + 1]) = Some (c, ps)"
  shows "\<exists>s'. Render e s = Inr s'"
proof -
  let ?w = "((g_FrameFenceValues s)(g_CurrentBackBufferIndex s := g_FenceValue s + 1)) (next_index e)"
  have "\<exists>s11. Render e s = WaitForFenceValue e ?w s11 \<and>
          fence_completed s11 = fence_completed s \<and>
          queue_signals s11 = queue_signals s @ [g_FenceValue s + 1]"
    using ok idx nxt
    apply (simp add: Render_def Let_def ThrowIfFailed_def Signal_def call_def del: fun_upd_apply)
    apply (rule exI, rule conjI, rule refl)
    apply simp
    done
  then obtain s11 where r: "Render e s = WaitForFenceValue e ?w s11"
    and "fence_completed s11 = fence_completed s"
    and "queue_signals s11 = queue_signals s @ [g_FenceValue s + 1]" by blast
  with fw have "fence_after_wait (gpu_steps e) ?w (fence_completed s11) (queue_signals s11)
      = Some (c, ps)" by simp
  from WaitForFenceValue_returns [OF ok this] r show ?thesis by simp
qed

lemma gpu_retire_snoc:
  "gpu_retire k c (ps @ [v]) = (c1, ps1) \<Longrightarrow> (\<exists>qs. ps1 = qs @ [v]) \<or> (ps1 = [] \<and> c1 = v)"
proof (induction k c ps rule: gpu_retire.induct)
  case (1 c ps)
  then show ?case by auto
next
  case (2 k c)
  then show ?case by (cases k) auto
next
  case (3 k c p ps)
  then show ?case by simp
qed

lemma gpu_reach_le: "v \<le> c \<Longrightarrow> gpu_reach v c ps = Some (c, ps)"
  by (cases ps) simp_all

lemma gpu_reach_member: "v' \<in> set ps \<Longrightarrow> v \<le> v' \<Longrightarrow> gpu_reach v c ps \<noteq> None"
  by (induction ps arbitrary: c) (auto simp: gpu_reach_le)

lemma fence_after_wait_snoc: "\<exists>c' ps'. fence_after_wait k v c (ps @ [v]) = Some (c', ps')"
proof (cases "gpu_retire k c (ps @ [v])")
  case (Pair c1 ps1)
  from gpu_retire_snoc [OF Pair] show ?thesis
  proof
    assume "\<exists>qs. ps1 = qs @ [v]"
    then have "v \<in> set ps1" by auto
    then have "gpu_reach v c1 ps1 \<noteq> None" by (rule gpu_reach_member) simp
    with Pair show ?thesis by (auto simp: fence_after_wait_def)
  next
    assume "ps1 = [] \<and> c1 = v"
    with Pair show ?thesis by (simp add: fence_after_wait_def)
  qed
qed

lemma Flush_returns:
  assumes ok: "\<And>c. \<not> failing e c"
  shows "\<exists>s'. Flush e s = Inr s'"
proof -
  obtain c ps where "fence_after_wait (gpu_steps e) (g_FenceValue s + 1) (fence_completed s)
      (queue_signals s @ [g_FenceValue s + 1]) = Some (c, ps)"
    using fence_after_wait_snoc by blast
  with ok WaitForFenceValue_returns [of e "g_FenceValue s + 1" _ c ps] show ?thesis
    by (simp add: Flush_def Signal_def Let_def ThrowIfFailed_def call_def)
qed

lemma Resize_returns:
  assumes ok: "\<And>c. \<not> failing e c" and idx: "g_CurrentBackBufferIndex s < g_NumFrames"
  shows "\<exists>s'. Resize e width height s = Inr s'"
proof (cases "g_ClientWidth s \<noteq> width \<or> g_ClientHeight s \<noteq> height")
  case False
  then show ?thesis by (simp add: Resize_def)
next
  case True
  let ?s2 = "s\<lparr>g_ClientWidth := max 1 width, g_ClientHeight := max 1 height\<rparr>"
  from Flush_returns [OF ok] obtain s3 where f: "Flush e ?s2 = Inr s3" by blast
  from Flush_Inr [OF f] idx have "g_CurrentBackBufferIndex s3 < g_NumFrames" by auto
  then obtain s4 where l: "Resize_loop 0 s3 = Inr s4" by (simp add: Resize_loop_Inr)
  from True f l ok show ?thesis
    by (simp add: Resize_def Let_def ThrowIfFailed_def UpdateRenderTargetViews_Inr)
qed

lemma first_frame:
  "Render (quiet_env\<lparr>next_index := 0\<rparr>) started_state = Inr first_frame_state"
proof -
  have "\<exists>s'. Render (quiet_env\<lparr>next_index := 0\<rparr>) started_state = Inr s'"
    by (rule Render_returns [where c = 0 and ps = "[1]"])
       (simp_all add: quiet_env_def started_state_def globals0_def g_NumFrames_def
          fence_after_wait_def)
  then show ?thesis by (auto simp: first_frame_state_def)
qed

lemma Render_fields:
  assumes "Render e s = Inr s'"
  shows "g_UseWarp s' = g_UseWarp s" "g_ClientWidth s' = g_ClientWidth s"
    "g_ClientHeight s' = g_ClientHeight s" "g_IsInitialized s' = g_IsInitialized s"
    "g_WindowRect s' = g_WindowRect s" "g_BackBuffers s' = g_BackBuffers s"
    "g_VSync s' = g_VSync s" "g_TearingSupported s' = g_TearingSupported s"
    "g_Fullscreen s' = g_Fullscreen s"
    "g_FenceValue s' = g_FenceValue s + 1"
    "g_FrameFenceValues s' =
       (g_FrameFenceValues s)(g_CurrentBackBufferIndex s := g_FenceValue s + 1)"
    "g_CurrentBackBufferIndex s' = next_index e"
    "fence_after_wait (gpu_steps e)
       (((g_FrameFenceValues s)(g_CurrentBackBufferIndex s := g_FenceValue s + 1)) (next_index e))
       (fence_completed s) (queue_signals s @ [g_FenceValue s + 1])
     = Some (fence_completed s', queue_signals s')"
    "g_CurrentBackBufferIndex s < g_NumFrames" "next_index e < g_NumFrames"
  using Render_Inr [OF assms] by auto

lemma Resize_fields:
  assumes "Resize e width height s = Inr s'"
    and "g_ClientWidth s \<noteq> width \<or> g_ClientHeight s \<noteq> height"
  shows "g_UseWarp s' = g_UseWarp s" "g_ClientWidth s' = max 1 width"
    "g_ClientHeight s' = max 1 height" "g_IsInitialized s' = g_IsInitialized s"
    "g_WindowRect s' = g_WindowRect s"
    "g_BackBuffers s' = (g_BackBuffers s)(0 := Some 0, 1 := Some 1)"
    "g_VSync s' = g_VSync s" "g_TearingSupported s' = g_TearingSupported s"
    "g_Fullscreen s' = g_Fullscreen s"
    "g_FenceValue s' = g_FenceValue s + 1"
    "g_FrameFenceValues s' = (g_FrameFenceValues s)
               (0 := g_FrameFenceValues s (g_CurrentBackBufferIndex s),
                1 := g_FrameFenceValues s (g_CurrentBackBufferIndex s))"
    "g_CurrentBackBufferIndex s' = next_index e"
    "fence_after_wait (gpu_steps e) (g_FenceValue s + 1)
       (fence_completed s) (queue_signals s @ [g_FenceValue s + 1])
     = Some (fence_completed s', queue_signals s')"
    "g_CurrentBackBufferIndex s < g_NumFrames"
  using Resize_Inr [OF assms] by auto

lemma started_fields:
  "g_ClientWidth started_state = 1280" "g_ClientHeight started_state = 720"
  "g_IsInitialized started_state" "g_CurrentBackBufferIndex started_state = 1"
  "g_FrameFenceValues started_state = (\<lambda>_. 0)" "g_FenceValue started_state = 0"
  "g_VSync started_state" "\<not> g_TearingSupported started_state"
  "\<not> g_Fullscreen started_state"
  "fence_completed started_state = 0" "queue_signals started_state = []"
  "g_BackBuffers started_state = (\<lambda>_. None)(0 := Some 0, 1 := Some 1)"
  by (simp_all add: started_state_def globals0_def)

lemma quiet_fields:
  "failing quiet_env c = False" "next_index quiet_env = 1" "gpu_steps quiet_env = 0"
  by (simp_all add: quiet_env_def)

lemma first_frame_fields:
  "g_ClientWidth first_frame_state = 1280" "g_ClientHeight first_frame_state = 720"
  "g_CurrentBackBufferIndex first_frame_state = 0"
  "g_FrameFenceValues first_frame_state = (\<lambda>_. 0)(1 := 1)"
  "g_FenceValue first_frame_state = 1"
  "fence_completed first_frame_state = 0" "queue_signals first_frame_state = [1]"
  using Render_fields [OF first_frame]
  by (simp_all add: started_fields quiet_fields fence_after_wait_def)

lemma second_frame_returns: "\<exists>s2. Render quiet_env first_frame_state = Inr s2"
  by (rule Render_returns [where c = 1 and ps = "[2]"])
     (simp_all add: quiet_fields first_frame_fields g_NumFrames_def fence_after_wait_def)

section \<open>Resizing to the size already stored\<close>

text \<open>
  Claim C7. \<^verbatim>\<open>Resize\<close> called with the width and height that \<open>g_ClientWidth\<close> and
  \<open>g_ClientHeight\<close> already hold returns the state it was given: the same globals, the same
  fence and queue, and a trace with no call added, so no flush, no release and no recreation
  of a back buffer.
\<close>
theorem Resize_same_size_noop:
  "g_ClientWidth s = width \<Longrightarrow> g_ClientHeight s = height \<Longrightarrow> Resize e width height s = Inr s"
  by (simp add: Resize_def)

theorem Resize_same_size_noop_witness:
  "g_ClientWidth started_state = 1280 \<and> g_ClientHeight started_state = 720 \<and>
   Resize quiet_env 1280 720 started_state = Inr started_state"
  using Resize_same_size_noop [of started_state 1280 720 quiet_env]
  by (simp add: started_state_def globals0_def)

section \<open>Setting the fullscreen state already stored\<close>

text \<open>
  Claim C8. \<^verbatim>\<open>SetFullscreen\<close> called with the value \<open>g_Fullscreen\<close> already holds
  returns the state it was given: the flag, the saved window rectangle and the trace are the
  same, so no window style or position was set.
\<close>
theorem SetFullscreen_same_state_noop:
  "g_Fullscreen s = fullscreen \<Longrightarrow> SetFullscreen e fullscreen s = s"
  by (simp add: SetFullscreen_def)

theorem SetFullscreen_same_state_noop_witness:
  "g_Fullscreen started_state = False \<and> SetFullscreen quiet_env False started_state = started_state"
  using SetFullscreen_same_state_noop [of started_state False quiet_env]
  by (simp add: started_state_def globals0_def)

section \<open>The size a resize stores\<close>

text \<open>
  Claim C5. A \<^verbatim>\<open>Resize\<close> that changes the size and returns stores \<open>max 1 width\<close> and
  \<open>max 1 height\<close> as the client dimensions, both at least 1, and asks the swap chain for
  buffers of exactly that size; a request of 0 by 0 gives 1 by 1.
\<close>
theorem Resize_clamps_to_one:
  assumes "Resize e width height s = Inr s'"
    and "g_ClientWidth s \<noteq> width \<or> g_ClientHeight s \<noteq> height"
  shows "g_ClientWidth s' = max 1 width \<and> g_ClientHeight s' = max 1 height \<and>
         1 \<le> g_ClientWidth s' \<and> 1 \<le> g_ClientHeight s' \<and>
         ResizeBuffers g_NumFrames (max 1 width) (max 1 height) \<in> set (calls s')"
  using Resize_Inr [OF assms] by auto

theorem Resize_clamps_to_one_witness:
  "\<exists>s'. Resize quiet_env 0 0 started_state = Inr s' \<and>
        g_ClientWidth started_state = 1280 \<and> g_ClientHeight started_state = 720 \<and>
        g_ClientWidth s' = 1 \<and> g_ClientHeight s' = 1 \<and>
        ResizeBuffers 2 1 1 \<in> set (calls s')"
proof -
  have "\<exists>s'. Resize quiet_env 0 0 started_state = Inr s'"
    by (rule Resize_returns) (simp_all add: quiet_env_def started_state_def g_NumFrames_def)
  then obtain s' where r: "Resize quiet_env 0 0 started_state = Inr s'" ..
  have "g_ClientWidth started_state \<noteq> 0 \<or> g_ClientHeight started_state \<noteq> 0"
    by (simp add: started_state_def globals0_def)
  from Resize_clamps_to_one [OF r this] r show ?thesis
    by (simp add: started_state_def globals0_def g_NumFrames_def)
qed

section \<open>The fence values of the slots after a resize\<close>

text \<open>
  Claim C10. After a \<^verbatim>\<open>Resize\<close> that changes the size and returns, every one of the
  \<open>g_NumFrames\<close> slots holds the fence value that the slot current at the beginning of the
  resize held then, so all of them are equal.
\<close>
theorem Resize_equalises_fence_values:
  assumes "Resize e width height s = Inr s'"
    and "g_ClientWidth s \<noteq> width \<or> g_ClientHeight s \<noteq> height"
  shows "\<forall>i<g_NumFrames.
           g_FrameFenceValues s' i = g_FrameFenceValues s (g_CurrentBackBufferIndex s)"
proof (intro allI impI)
  fix i assume "i < g_NumFrames"
  then have "i = 0 \<or> i = 1" by (auto simp: g_NumFrames_def)
  with Resize_Inr [OF assms] show
    "g_FrameFenceValues s' i = g_FrameFenceValues s (g_CurrentBackBufferIndex s)"
    by auto
qed

theorem Resize_equalises_fence_values_witness:
  "\<exists>s'. Resize quiet_env 640 480 first_frame_state = Inr s' \<and>
        g_FrameFenceValues first_frame_state 0 = 0 \<and>
        g_FrameFenceValues first_frame_state 1 = 1 \<and>
        g_CurrentBackBufferIndex first_frame_state = 0 \<and>
        g_FrameFenceValues s' 0 = 0 \<and> g_FrameFenceValues s' 1 = 0"
proof -
  have "\<exists>s'. Resize quiet_env 640 480 first_frame_state = Inr s'"
    by (rule Resize_returns) (simp_all add: quiet_env_def first_frame_fields g_NumFrames_def)
  then obtain s' where r: "Resize quiet_env 640 480 first_frame_state = Inr s'" ..
  have "g_ClientWidth first_frame_state \<noteq> 640 \<or> g_ClientHeight first_frame_state \<noteq> 480"
    by (simp add: first_frame_fields)
  from Resize_equalises_fence_values [OF r this] r show ?thesis
    by (simp add: first_frame_fields g_NumFrames_def)
qed

section \<open>The order of the steps of a resize\<close>

text \<open>
  Claim C4. The calls of a \<^verbatim>\<open>Resize\<close> that changes the size and returns are, in this
  order: the signal of the flush, the wait of the flush, the release of back buffer 0 and of
  back buffer 1, the query of the swap chain description, \<^verbatim>\<open>ResizeBuffers\<close> at the
  clamped size, the query of the current back-buffer index, and the rebuilding of the two
  render-target views. When it returns the fence has reached the value the flush signalled,
  the current index is the one the swap chain answered, and every slot refers to its new
  back buffer.
\<close>
theorem Resize_order:
  assumes "Resize e width height s = Inr s'"
    and "g_ClientWidth s \<noteq> width \<or> g_ClientHeight s \<noteq> height"
  shows "calls s' = calls s @
           CommandQueue_Signal (g_FenceValue s + 1) #
           wait_calls e (g_FenceValue s + 1)
             (s\<lparr>queue_signals := queue_signals s @ [g_FenceValue s + 1]\<rparr>) @
           [BackBuffer_Reset 0, BackBuffer_Reset 1, SwapChain_GetDesc,
            ResizeBuffers g_NumFrames (max 1 width) (max 1 height),
            GetCurrentBackBufferIndex,
            GetBuffer 0, CreateRenderTargetView 0, GetBuffer 1, CreateRenderTargetView 1] \<and>
         g_FenceValue s + 1 \<le> fence_completed s' \<and>
         g_CurrentBackBufferIndex s' = next_index e \<and>
         (\<forall>i<g_NumFrames. g_BackBuffers s' i = Some i)"
proof -
  from Resize_Inr [OF assms] obtain c ps where
    fw: "fence_after_wait (gpu_steps e) (g_FenceValue s + 1)
        (fence_completed s) (queue_signals s @ [g_FenceValue s + 1]) = Some (c, ps)"
    and s': "s' = s\<lparr>g_ClientWidth := max 1 width, g_ClientHeight := max 1 height,
            g_FenceValue := g_FenceValue s + 1,
            fence_completed := c, queue_signals := ps,
            g_FrameFenceValues := (g_FrameFenceValues s)
               (0 := g_FrameFenceValues s (g_CurrentBackBufferIndex s),
                1 := g_FrameFenceValues s (g_CurrentBackBufferIndex s)),
            g_CurrentBackBufferIndex := next_index e,
            g_BackBuffers := (g_BackBuffers s)(0 := Some 0, 1 := Some 1),
            calls := calls s @ CommandQueue_Signal (g_FenceValue s + 1) #
              wait_calls e (g_FenceValue s + 1)
                (s\<lparr>queue_signals := queue_signals s @ [g_FenceValue s + 1]\<rparr>) @
              [BackBuffer_Reset 0, BackBuffer_Reset 1, SwapChain_GetDesc,
               ResizeBuffers g_NumFrames (max 1 width) (max 1 height),
               GetCurrentBackBufferIndex,
               GetBuffer 0, CreateRenderTargetView 0, GetBuffer 1, CreateRenderTargetView 1]\<rparr>"
    by blast
  have "i = 0 \<or> i = 1" if "i < g_NumFrames" for i
    using that by (auto simp: g_NumFrames_def)
  with fence_after_wait_reached [OF fw] show ?thesis
    unfolding s' by auto
qed

theorem Resize_order_witness:
  "\<exists>s'. Resize quiet_env 640 480 first_frame_state = Inr s' \<and>
        calls s' = calls first_frame_state @
          [CommandQueue_Signal 2, GetCompletedValue, SetEventOnCompletion 2, WaitForSingleObject,
           BackBuffer_Reset 0, BackBuffer_Reset 1, SwapChain_GetDesc, ResizeBuffers 2 640 480,
           GetCurrentBackBufferIndex,
           GetBuffer 0, CreateRenderTargetView 0, GetBuffer 1, CreateRenderTargetView 1] \<and>
        2 \<le> fence_completed s'"
proof -
  have "\<exists>s'. Resize quiet_env 640 480 first_frame_state = Inr s'"
    by (rule Resize_returns) (simp_all add: quiet_env_def first_frame_fields g_NumFrames_def)
  then obtain s' where r: "Resize quiet_env 640 480 first_frame_state = Inr s'" ..
  have "g_ClientWidth first_frame_state \<noteq> 640 \<or> g_ClientHeight first_frame_state \<noteq> 480"
    by (simp add: first_frame_fields)
  from Resize_order [OF r this] r show ?thesis
    by (simp add: first_frame_fields g_NumFrames_def wait_calls_def quiet_env_def)
qed

lemma Render_calls:
  assumes "Render e s = Inr s'"
  shows "calls s' = calls s @
           [CommandAllocator_Reset (g_CurrentBackBufferIndex s),
            CommandList_Reset (g_CurrentBackBufferIndex s),
            ResourceBarrier (g_BackBuffers s (g_CurrentBackBufferIndex s))
              D3D12_RESOURCE_STATE_PRESENT D3D12_RESOURCE_STATE_RENDER_TARGET,
            ClearRenderTargetView (g_CurrentBackBufferIndex s),
            ResourceBarrier (g_BackBuffers s (g_CurrentBackBufferIndex s))
              D3D12_RESOURCE_STATE_RENDER_TARGET D3D12_RESOURCE_STATE_PRESENT,
            CommandList_Close,
            ExecuteCommandLists,
            Present (syncInterval s) (presentFlags s),
            CommandQueue_Signal (g_FenceValue s + 1),
            GetCurrentBackBufferIndex] @
           wait_calls e
             (((g_FrameFenceValues s)(g_CurrentBackBufferIndex s := g_FenceValue s + 1))
                (next_index e))
             (s\<lparr>queue_signals := queue_signals s @ [g_FenceValue s + 1]\<rparr>)"
  using Render_Inr [OF assms] by auto

lemma Render_reached:
  assumes "Render e s = Inr s'"
  shows "g_FrameFenceValues s' (g_CurrentBackBufferIndex s') \<le> fence_completed s'"
  using Render_fields [OF assms] fence_after_wait_reached by metis

lemma Render_presents_eq:
  assumes "Render e s = Inr s'"
  shows "presents (calls s') = presents (calls s) @ [(syncInterval s, presentFlags s)]"
  by (simp add: Render_calls [OF assms] presents_append presents_wait_calls)

lemma vsync_off_fields:
  "g_CurrentBackBufferIndex vsync_off_state = 1"
  "g_FrameFenceValues vsync_off_state = (\<lambda>_. 0)" "g_FenceValue vsync_off_state = 0"
  "\<not> g_VSync vsync_off_state" "\<not> g_TearingSupported vsync_off_state"
  "fence_completed vsync_off_state = 0" "queue_signals vsync_off_state = []"
  "presents (calls vsync_off_state) = []"
  by (simp_all add: vsync_off_state_def started_state_def globals0_def)

lemma vsync_off_returns: "\<exists>s'. Render quiet_env vsync_off_state = Inr s'"
  by (rule Render_returns [where c = 1 and ps = "[]"])
     (simp_all add: quiet_fields vsync_off_fields g_NumFrames_def fence_after_wait_def)

section \<open>The arguments of Present\<close>

text \<open>
  Claim C2 as stated fails. With V-Sync off and tearing not supported, \<^verbatim>\<open>Render\<close> calls
  \<^verbatim>\<open>Present\<close> with sync interval 0 and no flag, not with sync interval 1: the interval
  is \<^verbatim>\<open>g_VSync ? 1 : 0\<close> and does not look at tearing support.
\<close>
theorem present_interval_counterexample:
  "\<not> g_VSync vsync_off_state \<and> \<not> g_TearingSupported vsync_off_state \<and>
   Render_presents quiet_env vsync_off_state = [(0, 0)]"
proof -
  from vsync_off_returns obtain s' where r: "Render quiet_env vsync_off_state = Inr s'" ..
  from Render_presents_eq [OF r] r show ?thesis
    by (simp add: Render_presents_def vsync_off_fields syncInterval_def presentFlags_def)
qed

text \<open>
  Claim C2, amended. Every \<^verbatim>\<open>Render\<close> that returns adds exactly one \<^verbatim>\<open>Present\<close>
  call. Its sync interval is 1 when V-Sync is on and 0 when it is off, whatever the display
  supports; its flags are \<^verbatim>\<open>DXGI_PRESENT_ALLOW_TEARING\<close> when V-Sync is off and tearing
  is supported, and 0 otherwise.
\<close>
theorem present_arguments:
  assumes "Render e s = Inr s'"
  shows "presents (calls s') = presents (calls s) @
           [(if g_VSync s then 1 else 0,
             if \<not> g_VSync s \<and> g_TearingSupported s then DXGI_PRESENT_ALLOW_TEARING else 0)]"
  using Render_presents_eq [OF assms]
  by (simp add: syncInterval_def presentFlags_def conj_commute)

theorem present_arguments_witness:
  "\<exists>s'. Render quiet_env vsync_off_state = Inr s' \<and> presents (calls s') = [(0, 0)]"
proof -
  from vsync_off_returns obtain s' where r: "Render quiet_env vsync_off_state = Inr s'" ..
  from present_arguments [OF r] r show ?thesis
    by (simp add: vsync_off_fields)
qed

section \<open>The order of the steps of a frame\<close>

text \<open>
  Claim C3. The calls of a \<^verbatim>\<open>Render\<close> that returns are, in this order: the reset of
  the current slot's allocator, the reset of the command list against it, the barrier from
  present to render target, the clear, the barrier back to present, the close, the submission,
  the present, the signal of the fence with the incremented counter, the query of the current
  back-buffer index, and the wait for the fence value recorded for the slot the swap chain
  answered. The signalled value is stored for the slot that was current on entry, the new
  current index is the swap chain's answer and not a local increment, and on return the fence
  has reached the value waited for.
\<close>
theorem Render_sequence:
  assumes "Render e s = Inr s'"
  shows "calls s' = calls s @
           [CommandAllocator_Reset (g_CurrentBackBufferIndex s),
            CommandList_Reset (g_CurrentBackBufferIndex s),
            ResourceBarrier (g_BackBuffers s (g_CurrentBackBufferIndex s))
              D3D12_RESOURCE_STATE_PRESENT D3D12_RESOURCE_STATE_RENDER_TARGET,
            ClearRenderTargetView (g_CurrentBackBufferIndex s),
            ResourceBarrier (g_BackBuffers s (g_CurrentBackBufferIndex s))
              D3D12_RESOURCE_STATE_RENDER_TARGET D3D12_RESOURCE_STATE_PRESENT,
            CommandList_Close,
            ExecuteCommandLists,
            Present (syncInterval s) (presentFlags s),
            CommandQueue_Signal (g_FenceValue s + 1),
            GetCurrentBackBufferIndex] @
           wait_calls e (g_FrameFenceValues s' (g_CurrentBackBufferIndex s'))
             (s\<lparr>queue_signals := queue_signals s @ [g_FenceValue s + 1]\<rparr>) \<and>
         g_FrameFenceValues s' =
           (g_FrameFenceValues s)(g_CurrentBackBufferIndex s := g_FenceValue s + 1) \<and>
         g_CurrentBackBufferIndex s' = next_index e \<and>
         g_FrameFenceValues s' (g_CurrentBackBufferIndex s') \<le> fence_completed s'"
  using Render_calls [OF assms] Render_fields(11,12) [OF assms] Render_reached [OF assms]
  by simp

theorem Render_sequence_witness:
  "\<exists>s'. Render quiet_env vsync_off_state = Inr s' \<and>
        calls s' = calls vsync_off_state @
          [CommandAllocator_Reset 1, CommandList_Reset 1,
           ResourceBarrier (Some 1)
             D3D12_RESOURCE_STATE_PRESENT D3D12_RESOURCE_STATE_RENDER_TARGET,
           ClearRenderTargetView 1,
           ResourceBarrier (Some 1)
             D3D12_RESOURCE_STATE_RENDER_TARGET D3D12_RESOURCE_STATE_PRESENT,
           CommandList_Close, ExecuteCommandLists, Present 0 0, CommandQueue_Signal 1,
           GetCurrentBackBufferIndex,
           GetCompletedValue, SetEventOnCompletion 1, WaitForSingleObject] \<and>
        g_FrameFenceValues s' 1 = 1 \<and> g_CurrentBackBufferIndex s' = 1 \<and>
        1 \<le> fence_completed s'"
proof -
  from vsync_off_returns obtain s' where r: "Render quiet_env vsync_off_state = Inr s'" ..
  have bb: "g_BackBuffers vsync_off_state (Suc 0) = Some (Suc 0)"
    by (simp add: vsync_off_state_def started_state_def globals0_def)
  from Render_sequence [OF r] r show ?thesis
    by (auto simp: vsync_off_fields quiet_fields bb wait_calls_def syncInterval_def
          presentFlags_def)
qed

section \<open>The fence order is kept by every step\<close>

lemma gpu_retire_ordered:
  "gpu_retire k c ps = (c', ps') \<Longrightarrow> sorted_wrt (<) (c # ps) \<Longrightarrow>
     sorted_wrt (<) (c' # ps') \<and> c \<le> c' \<and> set (c' # ps') \<subseteq> set (c # ps)"
proof (induction k c ps rule: gpu_retire.induct)
  case (1 c ps)
  then show ?case by auto
next
  case (2 k c)
  then show ?case by auto
next
  case (3 k c p ps)
  from 3(2) have r: "gpu_retire k p ps = (c', ps')" by simp
  from 3(3) have "sorted_wrt (<) (p # ps)" and "c < p" by auto
  with 3(1) [OF r] show ?case by auto
qed

lemma gpu_reach_ordered:
  "gpu_reach v c ps = Some (c', ps') \<Longrightarrow> sorted_wrt (<) (c # ps) \<Longrightarrow>
     sorted_wrt (<) (c' # ps') \<and> c \<le> c' \<and> set (c' # ps') \<subseteq> set (c # ps)"
proof (induction v c ps rule: gpu_reach.induct)
  case (1 v c)
  then show ?case by (auto split: if_splits)
next
  case (2 v c p ps)
  show ?case
  proof (cases "v \<le> c")
    case True
    with 2 show ?thesis by auto
  next
    case False
    with 2(2) have r: "gpu_reach v p ps = Some (c', ps')" by simp
    from 2(3) have "sorted_wrt (<) (p # ps)" and "c < p" by auto
    with 2(1) [OF False r] show ?thesis by auto
  qed
qed

lemma fence_after_wait_ordered:
  assumes "fence_after_wait k v c ps = Some (c', ps')" and "sorted_wrt (<) (c # ps)"
  shows "sorted_wrt (<) (c' # ps') \<and> c \<le> c' \<and> set (c' # ps') \<subseteq> set (c # ps) \<and> v \<le> c'"
proof (cases "gpu_retire k c ps")
  case (Pair c1 ps1)
  from gpu_retire_ordered [OF Pair assms(2)] have
    1: "sorted_wrt (<) (c1 # ps1)" "c \<le> c1" "set (c1 # ps1) \<subseteq> set (c # ps)" by auto
  show ?thesis
  proof (cases "c1 < v")
    case True
    with assms(1) Pair have r: "gpu_reach v c1 ps1 = Some (c', ps')"
      by (simp add: fence_after_wait_def)
    from gpu_reach_ordered [OF r 1(1)] gpu_reach_Some [OF r] 1 show ?thesis by auto
  next
    case False
    with assms(1) Pair 1 show ?thesis by (auto simp: fence_after_wait_def)
  qed
qed

lemma word_less_succ:
  fixes b :: u64
  assumes "unat b + 1 < 2 ^ 64"
  shows "b < b + 1" and "unat (b + 1) = unat b + 1"
proof -
  from assms have "unat b + unat (1 :: u64) < 2 ^ LENGTH(64)" by simp
  then have "unat (b + 1) = unat b + unat (1 :: u64)" by (simp only: unat_add_lem)
  then show "unat (b + 1) = unat b + 1" by simp
  then show "b < b + 1" by (simp add: word_less_nat_alt)
qed

lemma signal_ordered:
  fixes b :: u64
  assumes s: "sorted_wrt (<) (c # ps)" and le: "list_all (\<lambda>v. v \<le> b) (c # ps)"
    and nw: "unat b + 1 < 2 ^ 64"
  shows "sorted_wrt (<) (c # ps @ [b + 1])" and "list_all (\<lambda>v. v \<le> b + 1) (c # ps @ [b + 1])"
proof -
  from word_less_succ(1) [OF nw] have lt: "b < b + 1" .
  from le have all: "\<forall>x \<in> set (c # ps). x \<le> b" by (simp add: list_all_iff)
  with lt have all_lt: "\<forall>x \<in> set (c # ps). x < b + 1" by auto
  have "sorted_wrt (<) ((c # ps) @ [b + 1])"
    unfolding sorted_wrt_append using s all_lt by simp
  then show "sorted_wrt (<) (c # ps @ [b + 1])" by simp
  from all lt have "\<forall>x \<in> set (c # ps @ [b + 1]). x \<le> b + 1" by auto
  then show "list_all (\<lambda>v. v \<le> b + 1) (c # ps @ [b + 1])" by (simp add: list_all_iff)
qed

lemma fence_step_ordered:
  fixes b :: u64
  assumes fw: "fence_after_wait k v c (ps @ [b + 1]) = Some (c', ps')"
    and s: "sorted_wrt (<) (c # ps)" and le: "list_all (\<lambda>v. v \<le> b) (c # ps)"
    and nw: "unat b + 1 < 2 ^ 64"
  shows "sorted_wrt (<) (c' # ps')" and "list_all (\<lambda>v. v \<le> b + 1) (c' # ps')"
    and "c \<le> c'" and "v \<le> c'"
proof -
  from signal_ordered [OF s le nw] have
    1: "sorted_wrt (<) (c # ps @ [b + 1])" and 2: "list_all (\<lambda>v. v \<le> b + 1) (c # ps @ [b + 1])"
    by auto
  from fence_after_wait_ordered [OF fw 1] have
    3: "sorted_wrt (<) (c' # ps')" "c \<le> c'" "set (c' # ps') \<subseteq> set (c # ps @ [b + 1])" "v \<le> c'"
    by auto
  from 3 show "sorted_wrt (<) (c' # ps')" "c \<le> c'" "v \<le> c'" by auto
  from 2 3(3) show "list_all (\<lambda>v. v \<le> b + 1) (c' # ps')"
    unfolding list_all_iff by blast
qed

lemma Render_fence_ordered:
  assumes r: "Render e s = Inr s'" and inv: "fence_ordered s"
    and nw: "unat (g_FenceValue s) + 1 < 2 ^ 64"
  shows "fence_ordered s'"
proof -
  from inv have s: "sorted_wrt (<) (fence_completed s # queue_signals s)"
    and le: "list_all (\<lambda>v. v \<le> g_FenceValue s) (fence_completed s # queue_signals s)"
    by (auto simp: fence_ordered_def)
  note f = Render_fields [OF r]
  from fence_step_ordered [OF f(13) s le nw] Render_reached [OF r] show ?thesis
    unfolding fence_ordered_def f(10) by blast
qed

lemma Resize_fence_ordered:
  assumes r: "Resize e width height s = Inr s'" and inv: "fence_ordered s"
    and nw: "unat (g_FenceValue s) + 1 < 2 ^ 64"
  shows "fence_ordered s'"
proof (cases "g_ClientWidth s \<noteq> width \<or> g_ClientHeight s \<noteq> height")
  case False
  with r inv show ?thesis by (simp add: Resize_def)
next
  case True
  note f = Resize_fields [OF r True]
  from inv f(14) have s: "sorted_wrt (<) (fence_completed s # queue_signals s)"
    and le: "list_all (\<lambda>v. v \<le> g_FenceValue s) (fence_completed s # queue_signals s)"
    and cur: "g_FrameFenceValues s (g_CurrentBackBufferIndex s) \<le> fence_completed s"
    by (auto simp: fence_ordered_def)
  from fence_step_ordered [OF f(13) s le nw] have
    o: "sorted_wrt (<) (fence_completed s' # queue_signals s')"
       "list_all (\<lambda>v. v \<le> g_FenceValue s + 1) (fence_completed s' # queue_signals s')"
       "fence_completed s \<le> fence_completed s'" by auto
  have "g_FrameFenceValues s' i = g_FrameFenceValues s (g_CurrentBackBufferIndex s)"
    if "i < g_NumFrames" for i
  proof -
    from that have "i = 0 \<or> i = 1" by (auto simp: g_NumFrames_def)
    then show ?thesis unfolding f(11) by auto
  qed
  with cur o(3) have "g_CurrentBackBufferIndex s' < g_NumFrames \<longrightarrow>
      g_FrameFenceValues s' (g_CurrentBackBufferIndex s') \<le> fence_completed s'"
    by auto
  with o(1,2) show ?thesis unfolding fence_ordered_def f(10) by blast
qed

lemma SetFullscreen_fence [simp]:
  "fence_completed (SetFullscreen e b s) = fence_completed s"
  "queue_signals (SetFullscreen e b s) = queue_signals s"
  "g_FenceValue (SetFullscreen e b s) = g_FenceValue s"
  "g_FrameFenceValues (SetFullscreen e b s) = g_FrameFenceValues s"
  "g_CurrentBackBufferIndex (SetFullscreen e b s) = g_CurrentBackBufferIndex s"
  by (simp_all add: SetFullscreen_def Let_def call_def)

lemma OnKeyDown_fence [simp]:
  "fence_completed (OnKeyDown e k s) = fence_completed s"
  "queue_signals (OnKeyDown e k s) = queue_signals s"
  "g_FenceValue (OnKeyDown e k s) = g_FenceValue s"
  "g_FrameFenceValues (OnKeyDown e k s) = g_FrameFenceValues s"
  "g_CurrentBackBufferIndex (OnKeyDown e k s) = g_CurrentBackBufferIndex s"
  by (simp_all add: OnKeyDown_def call_def)

lemma call_fence_ordered [simp]: "fence_ordered (call c s) = fence_ordered s"
  by (simp add: fence_ordered_def call_def)

lemma call_counter [simp]: "g_FenceValue (call c s) = g_FenceValue s"
  by (simp add: call_def)

lemma Render_counter: "Render e s = Inr s' \<Longrightarrow> g_FenceValue s' = g_FenceValue s + 1"
  by (rule Render_fields(10))

lemma Resize_counter:
  "Resize e width height s = Inr s' \<Longrightarrow>
     g_FenceValue s' = g_FenceValue s \<or> g_FenceValue s' = g_FenceValue s + 1"
  by (cases "g_ClientWidth s \<noteq> width \<or> g_ClientHeight s \<noteq> height")
     (auto simp: Resize_fields(10), simp add: Resize_def)

lemma WndProc_fence_ordered:
  assumes r: "WndProc e m s = Inr s'" and inv: "fence_ordered s"
    and nw: "unat (g_FenceValue s) + 1 < 2 ^ 64"
  shows "fence_ordered s' \<and>
         (g_FenceValue s' = g_FenceValue s \<or> g_FenceValue s' = g_FenceValue s + 1)"
proof (cases "g_IsInitialized s")
  case False
  with r inv show ?thesis by (auto simp: WndProc_def)
next
  case True
  show ?thesis
  proof (cases m)
    case WM_PAINT
    with r True have "Render e s = Inr s'" by (simp add: WndProc_def)
    from Render_fence_ordered [OF this inv nw] Render_counter [OF this] show ?thesis by simp
  next
    case WM_SIZE
    let ?s1 = "call GetClientRect s"
    from WM_SIZE r True obtain w h where rs: "Resize e w h ?s1 = Inr s'"
      by (auto simp: WndProc_def Let_def)
    have "g_FenceValue ?s1 = g_FenceValue s" by (simp add: call_def)
    with Resize_fence_ordered [OF rs] Resize_counter [OF rs] inv nw show ?thesis by simp
  next
    case (WM_SYSKEYDOWN k)
    with r True have "s' = OnKeyDown e k s" by (simp add: WndProc_def)
    with inv show ?thesis by (simp add: fence_ordered_def)
  next
    case (WM_KEYDOWN k)
    with r True have "s' = OnKeyDown e k s" by (simp add: WndProc_def)
    with inv show ?thesis by (simp add: fence_ordered_def)
  qed (use r True inv in \<open>auto simp: WndProc_def\<close>)
qed

lemma step_fence_ordered:
  assumes r: "step ev s = Inr s'" and inv: "fence_ordered s"
    and nw: "unat (g_FenceValue s) + 1 < 2 ^ 64"
  shows "fence_ordered s' \<and>
         (g_FenceValue s' = g_FenceValue s \<or> g_FenceValue s' = g_FenceValue s + 1)"
proof (cases ev)
  case (Message e m)
  with r have "WndProc e m s = Inr s'" by (simp add: step_def)
  from WndProc_fence_ordered [OF this inv nw] show ?thesis .
next
  case (GpuProgress k)
  obtain c ps where g: "gpu_retire k (fence_completed s) (queue_signals s) = (c, ps)"
    by (cases "gpu_retire k (fence_completed s) (queue_signals s)")
  with GpuProgress r have s': "s' = s\<lparr>fence_completed := c, queue_signals := ps\<rparr>"
    by (auto simp: step_def)
  from inv have so: "sorted_wrt (<) (fence_completed s # queue_signals s)"
    and le: "\<forall>v \<in> set (fence_completed s # queue_signals s). v \<le> g_FenceValue s"
    and cur: "g_CurrentBackBufferIndex s < g_NumFrames \<longrightarrow>
        g_FrameFenceValues s (g_CurrentBackBufferIndex s) \<le> fence_completed s"
    by (auto simp: fence_ordered_def list_all_iff)
  from gpu_retire_ordered [OF g so] have
    o: "sorted_wrt (<) (c # ps)" "fence_completed s \<le> c"
       "set (c # ps) \<subseteq> set (fence_completed s # queue_signals s)" by auto
  from o(3) le have "\<forall>v \<in> set (c # ps). v \<le> g_FenceValue s" by blast
  with o(1,2) cur show ?thesis
    unfolding s' fence_ordered_def list_all_iff by auto
qed

lemma counter_step:
  fixes a b :: u64
  assumes "b = a \<or> b = a + 1" and "unat a + 1 < 2 ^ 64"
  shows "unat b \<le> unat a + 1"
  using assms word_less_succ(2) [of a] by auto

lemma run_fence_ordered:
  "run evs s = Inr s' \<Longrightarrow> fence_ordered s \<Longrightarrow> unat (g_FenceValue s) + length evs < 2 ^ 64 \<Longrightarrow>
     fence_ordered s' \<and> unat (g_FenceValue s') \<le> unat (g_FenceValue s) + length evs"
proof (induction evs arbitrary: s)
  case Nil
  then show ?case by simp
next
  case (Cons ev evs)
  from Cons.prems(1) obtain s1 where st: "step ev s = Inr s1" and rn: "run evs s1 = Inr s'"
    by (auto simp: andThen_Inr_iff)
  from Cons.prems(3) have nw: "unat (g_FenceValue s) + 1 < 2 ^ 64" by simp
  from step_fence_ordered [OF st Cons.prems(2) nw] have
    inv1: "fence_ordered s1"
    and c: "g_FenceValue s1 = g_FenceValue s \<or> g_FenceValue s1 = g_FenceValue s + 1" by auto
  from counter_step [OF c nw] have le: "unat (g_FenceValue s1) \<le> unat (g_FenceValue s) + 1" .
  with Cons.prems(3) have "unat (g_FenceValue s1) + length evs < 2 ^ 64" by simp
  from Cons.IH [OF rn inv1 this] le show ?case by simp
qed

lemma CreateCommandAllocators_loop_Inr:
  "CreateCommandAllocators_loop e 0 s = Inr s' \<longleftrightarrow>
     \<not> failing e (CreateCommandAllocator 0) \<and> \<not> failing e (CreateCommandAllocator 1) \<and>
     s' = s\<lparr>calls := calls s @ [CreateCommandAllocator 0, CreateCommandAllocator 1]\<rparr>"
  by (auto simp: CreateCommandAllocators_loop.simps g_NumFrames_def call_def ThrowIfFailed_def
        andThen_def split: if_splits)

lemma ParseCommandLineArguments_body_fence:
  assumes "ParseCommandLineArguments_body argv i s = Inr (i', s')"
  shows "g_IsInitialized s' = g_IsInitialized s \<and> g_FenceValue s' = g_FenceValue s \<and>
         g_FrameFenceValues s' = g_FrameFenceValues s \<and>
         g_CurrentBackBufferIndex s' = g_CurrentBackBufferIndex s \<and>
         fence_completed s' = fence_completed s \<and> queue_signals s' = queue_signals s"
  using assms
  by (auto simp: ParseCommandLineArguments_body_def andThen_def split: if_splits)

lemma ParseCommandLineArguments_loop_fence:
  "ParseCommandLineArguments_loop argv i s = Inr s' \<Longrightarrow>
     g_IsInitialized s' = g_IsInitialized s \<and> g_FenceValue s' = g_FenceValue s \<and>
     g_FrameFenceValues s' = g_FrameFenceValues s \<and>
     g_CurrentBackBufferIndex s' = g_CurrentBackBufferIndex s \<and>
     fence_completed s' = fence_completed s \<and> queue_signals s' = queue_signals s"
proof (induction argv i s rule: ParseCommandLineArguments_loop.induct)
  case (1 argv i s)
  show ?case
  proof (cases "i < length argv")
    case False
    with 1(2) show ?thesis by (simp add: ParseCommandLineArguments_loop.simps)
  next
    case True
    with 1(2) obtain i' s1 where
      b: "ParseCommandLineArguments_body argv i s = Inr (i', s1)"
      and l: "ParseCommandLineArguments_loop argv (i' + 1) s1 = Inr s'"
      by (subst (asm) ParseCommandLineArguments_loop.simps) (auto split: sum.splits)
    from 1(1) [OF True b refl l] ParseCommandLineArguments_body_fence [OF b]
    show ?thesis by simp
  qed
qed

lemma startup_fence:
  assumes "wWinMain_startup e argv adapters = Inr s0"
  shows "g_IsInitialized s0" "g_FenceValue s0 = 0" "g_FrameFenceValues s0 = (\<lambda>_. 0)"
    "fence_completed s0 = 0" "queue_signals s0 = []"
    "g_CurrentBackBufferIndex s0 = next_index e" "next_index e < g_NumFrames"
proof -
  from assms obtain s1 where p: "ParseCommandLineArguments argv globals0 = Inr s1"
    by (auto simp: wWinMain_startup_def andThen_Inr_iff)
  from ParseCommandLineArguments_loop_fence [OF p [unfolded ParseCommandLineArguments_def]]
  have s1: "g_FenceValue s1 = 0" "g_FrameFenceValues s1 = (\<lambda>_. 0)"
    "fence_completed s1 = 0" "queue_signals s1 = []"
    by (simp_all add: globals0_def)
  from assms p s1 show "g_IsInitialized s0" "g_FenceValue s0 = 0"
    "g_FrameFenceValues s0 = (\<lambda>_. 0)"
    "fence_completed s0 = 0" "queue_signals s0 = []"
    "g_CurrentBackBufferIndex s0 = next_index e" "next_index e < g_NumFrames"
    by (auto simp: wWinMain_startup_def andThen_Inr_iff ThrowIfFailed_Inr_iff Let_def
          UpdateRenderTargetViews_Inr CreateCommandAllocators_loop_Inr call_def
          split: if_splits)
qed

lemma startup_fence_ordered:
  assumes "wWinMain_startup e argv adapters = Inr s0"
  shows "fence_ordered s0"
  by (simp add: fence_ordered_def startup_fence [OF assms])

section \<open>No allocator is reset before the GPU is done with it\<close>

text \<open>
  Claim C1. Take any state \<open>s\<close> the program reaches from start-up through messages and
  progress of the GPU, in fewer than \<open>2 ^ 64\<close> events, so that the 64-bit fence counter
  has not wrapped. If the current index is one of the \<open>g_NumFrames\<close> slots, as it is for
  every index a swap chain of that many buffers reports, the fence has reached the value
  recorded for the current slot. So a \<^verbatim>\<open>Render\<close> that starts in \<open>s\<close>, whose first call
  is the reset of the current slot's allocator, resets it only then; and when it returns, the
  wait it ended with has made the same true of the slot that is current next, which is the
  slot the next \<^verbatim>\<open>Render\<close> resets.
\<close>
theorem no_reset_before_completion:
  assumes "wWinMain_startup e0 argv adapters = Inr s0"
    and "run pre s0 = Inr s"
    and "length pre < 2 ^ 64"
  shows "(g_CurrentBackBufferIndex s < g_NumFrames \<longrightarrow>
            g_FrameFenceValues s (g_CurrentBackBufferIndex s) \<le> fence_completed s) \<and>
         (\<forall>e s'. Render e s = Inr s' \<longrightarrow>
            take (Suc (length (calls s))) (calls s') =
              calls s @ [CommandAllocator_Reset (g_CurrentBackBufferIndex s)] \<and>
            g_FrameFenceValues s (g_CurrentBackBufferIndex s) \<le> fence_completed s \<and>
            g_FrameFenceValues s' (g_CurrentBackBufferIndex s') \<le> fence_completed s')"
proof -
  from assms(3) have "unat (g_FenceValue s0) + length pre < 2 ^ 64"
    by (simp add: startup_fence(2) [OF assms(1)])
  from run_fence_ordered [OF assms(2) startup_fence_ordered [OF assms(1)] this]
  have inv: "fence_ordered s" by simp
  then have 1: "g_CurrentBackBufferIndex s < g_NumFrames \<longrightarrow>
            g_FrameFenceValues s (g_CurrentBackBufferIndex s) \<le> fence_completed s"
    by (simp add: fence_ordered_def)
  have "take (Suc (length (calls s))) (calls s') =
              calls s @ [CommandAllocator_Reset (g_CurrentBackBufferIndex s)] \<and>
            g_FrameFenceValues s (g_CurrentBackBufferIndex s) \<le> fence_completed s \<and>
            g_FrameFenceValues s' (g_CurrentBackBufferIndex s') \<le> fence_completed s'"
    if r: "Render e s = Inr s'" for e s'
    using Render_calls [OF r] Render_fields(14) [OF r] Render_reached [OF r] 1 by simp
  with 1 show ?thesis by blast
qed

theorem no_reset_before_completion_witness:
  "wWinMain_startup quiet_env [''DX12Renderer.exe''] [] = Inr started_state \<and>
   run [Message (quiet_env\<lparr>next_index := 0\<rparr>) WM_PAINT] started_state = Inr first_frame_state \<and>
   g_CurrentBackBufferIndex first_frame_state < g_NumFrames \<and>
   g_FrameFenceValues first_frame_state (g_CurrentBackBufferIndex first_frame_state)
     \<le> fence_completed first_frame_state \<and>
   (\<exists>s2. Render quiet_env first_frame_state = Inr s2 \<and>
         take (Suc (length (calls first_frame_state))) (calls s2) =
           calls first_frame_state @ [CommandAllocator_Reset 0] \<and>
         g_FrameFenceValues s2 (g_CurrentBackBufferIndex s2) \<le> fence_completed s2)"
proof -
  have r: "run [Message (quiet_env\<lparr>next_index := 0\<rparr>) WM_PAINT] started_state
             = Inr first_frame_state"
    by (simp add: step_def WndProc_def started_fields first_frame)
  have l: "length [Message (quiet_env\<lparr>next_index := 0\<rparr>) WM_PAINT] < 2 ^ 64" by simp
  from second_frame_returns obtain s2 where r2: "Render quiet_env first_frame_state = Inr s2" ..
  note t = no_reset_before_completion [OF startup_quiet r l]
  from t have 1: "g_FrameFenceValues first_frame_state (g_CurrentBackBufferIndex first_frame_state)
     \<le> fence_completed first_frame_state"
    by (simp add: first_frame_fields g_NumFrames_def)
  from t r2 have 2: "take (Suc (length (calls first_frame_state))) (calls s2) =
           calls first_frame_state @ [CommandAllocator_Reset 0] \<and>
         g_FrameFenceValues s2 (g_CurrentBackBufferIndex s2) \<le> fence_completed s2"
    by (auto simp: first_frame_fields)
  have 3: "g_CurrentBackBufferIndex first_frame_state < g_NumFrames"
    by (simp add: first_frame_fields g_NumFrames_def)
  from startup_quiet r 1 2 3 r2 show ?thesis by blast
qed

section \<open>The fence counter over consecutive frames\<close>

lemma render_cycles_values:
  "render_cycles es s = Inr (ws, s') \<Longrightarrow>
     length ws = length es \<and>
     (\<forall>k<length es. ws ! k = g_FenceValue s + of_nat (Suc k)) \<and>
     g_FenceValue s' = g_FenceValue s + of_nat (length es)"
proof (induction es arbitrary: s ws)
  case Nil
  then show ?case by simp
next
  case (Cons e es)
  from Cons.prems obtain s1 ws1 where r: "Render e s = Inr s1"
    and rc: "render_cycles es s1 = Inr (ws1, s')"
    and ws: "ws = g_FrameFenceValues s1 (g_CurrentBackBufferIndex s) # ws1"
    by (auto simp: andThen_Inr_iff)
  note f = Render_fields [OF r]
  from f(11) have w0: "g_FrameFenceValues s1 (g_CurrentBackBufferIndex s) = g_FenceValue s + 1"
    by simp
  from Cons.IH [OF rc] have ih: "length ws1 = length es"
    "\<forall>k<length es. ws1 ! k = g_FenceValue s1 + of_nat (Suc k)"
    "g_FenceValue s' = g_FenceValue s1 + of_nat (length es)" by auto
  have "ws ! k = g_FenceValue s + of_nat (Suc k)" if "k < length (e # es)" for k
  proof (cases k)
    case 0
    then show ?thesis by (simp add: ws w0)
  next
    case (Suc j)
    with that ih(2) show ?thesis by (simp add: ws f(10) add.assoc)
  qed
  with ih(1,3) show ?case by (simp add: ws f(10) add.assoc)
qed

lemma unat_add_of_nat:
  fixes a :: u64
  assumes "unat a + n < 2 ^ 64"
  shows "unat (a + of_nat n) = unat a + n"
proof -
  from assms have n: "n < 2 ^ 64" by simp
  then have u: "unat (of_nat n :: u64) = n" by (simp add: unat_of_nat)
  with assms have "unat a + unat (of_nat n :: u64) < 2 ^ LENGTH(64)" by simp
  then have "unat (a + of_nat n) = unat a + unat (of_nat n :: u64)" by (simp only: unat_add_lem)
  with u show ?thesis by simp
qed

text \<open>
  Claim C6. A \<^verbatim>\<open>Signal\<close> that returns has added one to the CPU-side fence counter, in
  64-bit arithmetic, and returns the new counter. Over consecutive render cycles with nothing
  in between, cycle \<open>k\<close> (counted from 0) records the counter at the beginning plus
  \<open>k + 1\<close> for its slot, so the recorded values go up by exactly one per cycle, and the
  counter at the end is the one at the beginning plus the number of cycles. As long as the
  counter at the beginning plus the number of cycles stays below \<open>2 ^ 64\<close>, so that the
  64-bit counter does not wrap, these are equations between numbers: the recorded values
  increase strictly from the counter at the beginning, and the counter at the end is not
  below the one at the beginning.
\<close>
theorem fence_values_increase_by_one:
  "(Signal e s = Inr (v, s1) \<longrightarrow> g_FenceValue s1 = g_FenceValue s + 1 \<and> v = g_FenceValue s1) \<and>
   (render_cycles es s = Inr (ws, s') \<longrightarrow>
      length ws = length es \<and>
      (\<forall>k<length ws. ws ! k = g_FenceValue s + of_nat (Suc k)) \<and>
      g_FenceValue s' = g_FenceValue s + of_nat (length es)) \<and>
   (render_cycles es s = Inr (ws, s') \<and> unat (g_FenceValue s) + length es < 2 ^ 64 \<longrightarrow>
      length ws = length es \<and>
      (\<forall>k<length ws. unat (ws ! k) = unat (g_FenceValue s) + k + 1) \<and>
      sorted_wrt (<) (g_FenceValue s # ws) \<and>
      unat (g_FenceValue s') = unat (g_FenceValue s) + length es \<and>
      g_FenceValue s \<le> g_FenceValue s')"
proof -
  have 1: "g_FenceValue s1 = g_FenceValue s + 1 \<and> v = g_FenceValue s1"
    if "Signal e s = Inr (v, s1)"
    using that by (simp add: Signal_Inr_iff)
  have 2: "length ws = length es \<and>
      (\<forall>k<length ws. unat (ws ! k) = unat (g_FenceValue s) + k + 1) \<and>
      sorted_wrt (<) (g_FenceValue s # ws) \<and>
      unat (g_FenceValue s') = unat (g_FenceValue s) + length es \<and>
      g_FenceValue s \<le> g_FenceValue s'"
    if rc: "render_cycles es s = Inr (ws, s')"
      and nw: "unat (g_FenceValue s) + length es < 2 ^ 64"
  proof -
    from render_cycles_values [OF rc] have len: "length ws = length es"
      and val: "\<forall>k<length es. ws ! k = g_FenceValue s + of_nat (Suc k)"
      and fin: "g_FenceValue s' = g_FenceValue s + of_nat (length es)" by auto
    have u: "unat (ws ! k) = unat (g_FenceValue s) + k + 1" if "k < length ws" for k
    proof -
      from that len nw have "unat (g_FenceValue s) + Suc k < 2 ^ 64" by simp
      from unat_add_of_nat [OF this] val that len show ?thesis by simp
    qed
    have all: "unat ((g_FenceValue s # ws) ! i) = unat (g_FenceValue s) + i"
      if "i < length (g_FenceValue s # ws)" for i
      using that u by (cases i) simp_all
    have so: "sorted_wrt (<) (g_FenceValue s # ws)"
      unfolding sorted_wrt_iff_nth_less
    proof (intro allI impI)
      fix i j assume "i < j" "j < length (g_FenceValue s # ws)"
      with all [of i] all [of j] show "(g_FenceValue s # ws) ! i < (g_FenceValue s # ws) ! j"
        by (simp add: word_less_nat_alt)
    qed
    from unat_add_of_nat [OF nw] fin
    have fu: "unat (g_FenceValue s') = unat (g_FenceValue s) + length es" by simp
    then have "g_FenceValue s \<le> g_FenceValue s'" by (simp add: word_le_nat_alt)
    with len u so fu show ?thesis by blast
  qed
  have 3: "length ws = length es \<and>
      (\<forall>k<length ws. ws ! k = g_FenceValue s + of_nat (Suc k)) \<and>
      g_FenceValue s' = g_FenceValue s + of_nat (length es)"
    if rc: "render_cycles es s = Inr (ws, s')"
    using render_cycles_values [OF rc] by simp
  from 1 2 3 show ?thesis by blast
qed

theorem fence_values_increase_by_one_witness:
  "Signal quiet_env started_state =
     Inr (1, started_state\<lparr>g_FenceValue := 1, queue_signals := [1],
                           calls := calls started_state @ [CommandQueue_Signal 1]\<rparr>) \<and>
   (\<exists>s2. render_cycles [quiet_env\<lparr>next_index := 0\<rparr>, quiet_env] started_state
            = Inr ([1, 2], s2) \<and>
         unat (g_FenceValue started_state) + 2 < (2 :: nat) ^ 64 \<and>
         g_FenceValue s2 = 2 \<and> unat (g_FenceValue s2) = 2 \<and>
         sorted_wrt (<) [g_FenceValue started_state, 1, 2])"
proof -
  let ?s1 = "started_state\<lparr>g_FenceValue := 1, queue_signals := [1],
                           calls := calls started_state @ [CommandQueue_Signal 1]\<rparr>"
  have sg: "Signal quiet_env started_state = Inr (1, ?s1)"
    by (simp add: Signal_Inr_iff quiet_fields started_fields)
  from second_frame_returns obtain s2 where r2: "Render quiet_env first_frame_state = Inr s2" ..
  from Render_fields(11) [OF r2] have "g_FrameFenceValues s2 0 = 2"
    by (simp add: first_frame_fields)
  with r2 have rc: "render_cycles [quiet_env\<lparr>next_index := 0\<rparr>, quiet_env] started_state
           = Inr ([1, 2], s2)"
    by (simp add: first_frame first_frame_fields started_fields)
  have nw: "unat (g_FenceValue started_state) + length [quiet_env\<lparr>next_index := 0\<rparr>, quiet_env]
            < 2 ^ 64"
    by (simp add: started_fields)
  from fence_values_increase_by_one
    [of quiet_env started_state 1 ?s1
        "[quiet_env\<lparr>next_index := 0\<rparr>, quiet_env]" "[1, 2]" s2]
    sg rc nw
  have "g_FenceValue s2 = 2 \<and> unat (g_FenceValue s2) = 2 \<and>
        sorted_wrt (<) [g_FenceValue started_state, 1, 2]"
    by (auto simp: started_fields)
  with sg rc nw show ?thesis by auto
qed

section \<open>The command line\<close>

lemma wcstol_no_number: "\<not> starts_with_number str \<Longrightarrow> wcstol str = 0"
proof -
  assume a: "\<not> starts_with_number str"
  define s1 where "s1 = dropWhile is_space str"
  define s2 where "s2 = (if s1 \<noteq> [] \<and> (hd s1 = CHR ''-'' \<or> hd s1 = CHR ''+'') then tl s1 else s1)"
  have eq: "starts_with_number str = (s2 \<noteq> [] \<and> digit_val (hd s2) \<noteq> None)"
    by (simp only: starts_with_number_def Let_def s1_def s2_def)
  have w: "wcstol str =
      (if s1 \<noteq> [] \<and> hd s1 = CHR ''-'' then max (- (2 ^ 31)) (- int (parse_digits s2 0))
       else min (2 ^ 31 - 1) (int (parse_digits s2 0)))"
    by (simp only: wcstol_def Let_def s1_def s2_def)
  from a eq have "s2 = [] \<or> digit_val (hd s2) = None" by blast
  then have "parse_digits s2 0 = 0" by (cases s2) auto
  then show ?thesis by (simp add: w)
qed

lemma body_index:
  "ParseCommandLineArguments_body argv i s = Inr (i', s') \<Longrightarrow> i \<le> i' \<and> i' \<le> i + 2"
  by (auto simp: ParseCommandLineArguments_body_def andThen_def split: if_splits)

lemma body_width_kept:
  "ParseCommandLineArguments_body argv i s = Inr (i', s') \<Longrightarrow>
     argv ! i \<noteq> ''-w'' \<Longrightarrow> argv ! i \<noteq> ''--width'' \<Longrightarrow> g_ClientWidth s' = g_ClientWidth s"
  by (auto simp: ParseCommandLineArguments_body_def andThen_def split: if_splits)

lemma body_height_kept:
  "ParseCommandLineArguments_body argv i s = Inr (i', s') \<Longrightarrow>
     \<forall>j. i \<le> j \<and> j < length argv \<longrightarrow> argv ! j \<noteq> ''-h'' \<and> argv ! j \<noteq> ''--height'' \<Longrightarrow>
     i < length argv \<Longrightarrow> g_ClientHeight s' = g_ClientHeight s"
  by (auto simp: ParseCommandLineArguments_body_def andThen_def split: if_splits)

lemma body_warp_kept:
  "ParseCommandLineArguments_body argv i s = Inr (i', s') \<Longrightarrow>
     \<forall>j. i \<le> j \<and> j < length argv \<longrightarrow> argv ! j \<noteq> ''-warp'' \<and> argv ! j \<noteq> ''--warp'' \<Longrightarrow>
     i < length argv \<Longrightarrow> g_UseWarp s' = g_UseWarp s"
  by (auto simp: ParseCommandLineArguments_body_def andThen_def split: if_splits)

lemma loop_step:
  assumes "ParseCommandLineArguments_loop argv i s = Inr s'" and "i < length argv"
  obtains i' s1 where "ParseCommandLineArguments_body argv i s = Inr (i', s1)"
    and "ParseCommandLineArguments_loop argv (i' + 1) s1 = Inr s'"
  using assms
  by (subst (asm) ParseCommandLineArguments_loop.simps) (auto split: sum.splits)

lemma loop_end:
  "\<not> i < length argv \<Longrightarrow> ParseCommandLineArguments_loop argv i s = Inr s"
  by (simp add: ParseCommandLineArguments_loop.simps)

lemma loop_width_kept:
  "ParseCommandLineArguments_loop argv i s = Inr s' \<Longrightarrow>
     \<forall>j. i \<le> j \<and> j < length argv \<longrightarrow> argv ! j \<noteq> ''-w'' \<and> argv ! j \<noteq> ''--width'' \<Longrightarrow>
     g_ClientWidth s' = g_ClientWidth s"
proof (induction argv i s rule: ParseCommandLineArguments_loop.induct)
  case (1 argv i s)
  show ?case
  proof (cases "i < length argv")
    case False
    with 1(2) show ?thesis by (simp add: loop_end)
  next
    case True
    from 1(2) True obtain i' s1 where
      b: "ParseCommandLineArguments_body argv i s = Inr (i', s1)"
      and l: "ParseCommandLineArguments_loop argv (i' + 1) s1 = Inr s'"
      by (rule loop_step)
    from body_index [OF b] 1(3) have
      "\<forall>j. i' + 1 \<le> j \<and> j < length argv \<longrightarrow> argv ! j \<noteq> ''-w'' \<and> argv ! j \<noteq> ''--width''"
      by auto
    from 1(1) [OF True b refl l this] body_width_kept [OF b] 1(3) True show ?thesis by simp
  qed
qed

lemma loop_height_kept:
  "ParseCommandLineArguments_loop argv i s = Inr s' \<Longrightarrow>
     \<forall>j. i \<le> j \<and> j < length argv \<longrightarrow> argv ! j \<noteq> ''-h'' \<and> argv ! j \<noteq> ''--height'' \<Longrightarrow>
     g_ClientHeight s' = g_ClientHeight s"
proof (induction argv i s rule: ParseCommandLineArguments_loop.induct)
  case (1 argv i s)
  show ?case
  proof (cases "i < length argv")
    case False
    with 1(2) show ?thesis by (simp add: loop_end)
  next
    case True
    from 1(2) True obtain i' s1 where
      b: "ParseCommandLineArguments_body argv i s = Inr (i', s1)"
      and l: "ParseCommandLineArguments_loop argv (i' + 1) s1 = Inr s'"
      by (rule loop_step)
    from body_index [OF b] 1(3) have
      "\<forall>j. i' + 1 \<le> j \<and> j < length argv \<longrightarrow> argv ! j \<noteq> ''-h'' \<and> argv ! j \<noteq> ''--height''"
      by auto
    from 1(1) [OF True b refl l this] body_height_kept [OF b 1(3) True] show ?thesis by simp
  qed
qed

lemma loop_warp_kept:
  "ParseCommandLineArguments_loop argv i s = Inr s' \<Longrightarrow>
     \<forall>j. i \<le> j \<and> j < length argv \<longrightarrow> argv ! j \<noteq> ''-warp'' \<and> argv ! j \<noteq> ''--warp'' \<Longrightarrow>
     g_UseWarp s' = g_UseWarp s"
proof (induction argv i s rule: ParseCommandLineArguments_loop.induct)
  case (1 argv i s)
  show ?case
  proof (cases "i < length argv")
    case False
    with 1(2) show ?thesis by (simp add: loop_end)
  next
    case True
    from 1(2) True obtain i' s1 where
      b: "ParseCommandLineArguments_body argv i s = Inr (i', s1)"
      and l: "ParseCommandLineArguments_loop argv (i' + 1) s1 = Inr s'"
      by (rule loop_step)
    from body_index [OF b] 1(3) have
      "\<forall>j. i' + 1 \<le> j \<and> j < length argv \<longrightarrow> argv ! j \<noteq> ''-warp'' \<and> argv ! j \<noteq> ''--warp''"
      by auto
    from 1(1) [OF True b refl l this] body_warp_kept [OF b 1(3) True] show ?thesis by simp
  qed
qed

lemma loop_width_flag:
  assumes l: "ParseCommandLineArguments_loop argv n s = Inr s'"
    and f: "argv ! n = ''-w'' \<or> argv ! n = ''--width''"
    and n: "n < length argv"
    and post: "\<forall>j. n + 2 \<le> j \<and> j < length argv \<longrightarrow>
                 argv ! j \<noteq> ''-w'' \<and> argv ! j \<noteq> ''--width''"
  shows "g_ClientWidth s' = word_of_int (wcstol (argv ! (n + 1)))"
proof -
  from l n obtain i' s1 where
    b: "ParseCommandLineArguments_body argv n s = Inr (i', s1)"
    and r: "ParseCommandLineArguments_loop argv (i' + 1) s1 = Inr s'"
    by (rule loop_step)
  from b f have w: "g_ClientWidth s1 = word_of_int (wcstol (argv ! (n + 1)))" and i': "n + 1 \<le> i'"
    by (auto simp: ParseCommandLineArguments_body_def andThen_def split: if_splits)
  from post i' have
    "\<forall>j. i' + 1 \<le> j \<and> j < length argv \<longrightarrow> argv ! j \<noteq> ''-w'' \<and> argv ! j \<noteq> ''--width''"
    by auto
  from loop_width_kept [OF r this] w show ?thesis by simp
qed

lemma loop_height_flag:
  assumes l: "ParseCommandLineArguments_loop argv n s = Inr s'"
    and f: "argv ! n = ''-h'' \<or> argv ! n = ''--height''"
    and n: "n < length argv"
    and post: "\<forall>j. n + 2 \<le> j \<and> j < length argv \<longrightarrow>
                 argv ! j \<noteq> ''-h'' \<and> argv ! j \<noteq> ''--height''"
  shows "g_ClientHeight s' = word_of_int (wcstol (argv ! (n + 1)))"
proof -
  from l n obtain i' s1 where
    b: "ParseCommandLineArguments_body argv n s = Inr (i', s1)"
    and r: "ParseCommandLineArguments_loop argv (i' + 1) s1 = Inr s'"
    by (rule loop_step)
  from b f have w: "g_ClientHeight s1 = word_of_int (wcstol (argv ! (n + 1)))" and i': "n + 1 \<le> i'"
    by (auto simp: ParseCommandLineArguments_body_def andThen_def split: if_splits)
  from post i' have
    "\<forall>j. i' + 1 \<le> j \<and> j < length argv \<longrightarrow> argv ! j \<noteq> ''-h'' \<and> argv ! j \<noteq> ''--height''"
    by auto
  from loop_height_kept [OF r this] w show ?thesis by simp
qed

lemma body_not_past:
  assumes b: "ParseCommandLineArguments_body argv i s = Inr (i', s1)" and lt: "i < n"
    and prev: "argv ! (n - 1) \<noteq> ''-w''" "argv ! (n - 1) \<noteq> ''--width''"
              "argv ! (n - 1) \<noteq> ''-h''" "argv ! (n - 1) \<noteq> ''--height''"
  shows "i' < n"
proof (rule ccontr)
  assume "\<not> i' < n"
  with body_index [OF b] lt have "n = i + 1 \<or> (n = i + 2 \<and> i' = i + 2)" by auto
  then show False
  proof
    assume n: "n = i + 1"
    with \<open>\<not> i' < n\<close> have "i < i'" by simp
    with b prev show False
      by (auto simp: n ParseCommandLineArguments_body_def andThen_def split: if_splits)
  next
    assume n: "n = i + 2 \<and> i' = i + 2"
    with b prev show False
      by (auto simp: ParseCommandLineArguments_body_def andThen_def split: if_splits)
  qed
qed

lemma body_reads_height:
  assumes b: "ParseCommandLineArguments_body argv i s = Inr (i', s1)" and lt: "i < n" "n \<le> i'"
    and f: "argv ! n = ''-h'' \<or> argv ! n = ''--height''"
    and prev: "argv ! (n - 1) \<noteq> ''-h''" "argv ! (n - 1) \<noteq> ''--height''"
  shows "i' = n + 1 \<and> g_ClientHeight s1 = word_of_int (wcstol (argv ! (n + 1)))"
proof -
  from body_index [OF b] lt have "n = i + 1 \<or> (n = i + 2 \<and> i' = i + 2)" by auto
  then show ?thesis
  proof
    assume n: "n = i + 1"
    with b prev f lt show ?thesis
      by (auto simp: ParseCommandLineArguments_body_def andThen_def split: if_splits)
  next
    assume n: "n = i + 2 \<and> i' = i + 2"
    with b prev f show ?thesis
      by (auto simp: ParseCommandLineArguments_body_def andThen_def split: if_splits)
  qed
qed

lemma loop_width_read:
  "ParseCommandLineArguments_loop argv i s = Inr s' \<Longrightarrow> i \<le> n \<Longrightarrow> n < length argv \<Longrightarrow>
   argv ! n = ''-w'' \<or> argv ! n = ''--width'' \<Longrightarrow>
   (i < n \<longrightarrow> argv ! (n - 1) \<noteq> ''-w'' \<and> argv ! (n - 1) \<noteq> ''--width'' \<and>
               argv ! (n - 1) \<noteq> ''-h'' \<and> argv ! (n - 1) \<noteq> ''--height'') \<Longrightarrow>
   (\<forall>j. n + 2 \<le> j \<and> j < length argv \<longrightarrow> argv ! j \<noteq> ''-w'' \<and> argv ! j \<noteq> ''--width'') \<Longrightarrow>
   g_ClientWidth s' = word_of_int (wcstol (argv ! (n + 1)))"
proof (induction argv i s rule: ParseCommandLineArguments_loop.induct)
  case (1 argv i s)
  show ?case
  proof (cases "i = n")
    case True
    with 1(2) have l: "ParseCommandLineArguments_loop argv n s = Inr s'" by simp
    from loop_width_flag [OF l 1(5) 1(4) 1(7)] show ?thesis .
  next
    case False
    with 1(3) have lt: "i < n" by simp
    with 1(4) have il: "i < length argv" by simp
    from 1(2) il obtain i' s1 where
      b: "ParseCommandLineArguments_body argv i s = Inr (i', s1)"
      and l: "ParseCommandLineArguments_loop argv (i' + 1) s1 = Inr s'"
      by (rule loop_step)
    from 1(6) lt have prev: "argv ! (n - 1) \<noteq> ''-w''" "argv ! (n - 1) \<noteq> ''--width''"
              "argv ! (n - 1) \<noteq> ''-h''" "argv ! (n - 1) \<noteq> ''--height''" by auto
    from body_not_past [OF b lt prev] have le: "i' + 1 \<le> n" by simp
    from prev have "i' + 1 < n \<longrightarrow> argv ! (n - 1) \<noteq> ''-w'' \<and> argv ! (n - 1) \<noteq> ''--width'' \<and>
               argv ! (n - 1) \<noteq> ''-h'' \<and> argv ! (n - 1) \<noteq> ''--height''" by simp
    from 1(1) [OF il b refl l le 1(4) 1(5) this 1(7)] show ?thesis .
  qed
qed

lemma loop_height_read:
  "ParseCommandLineArguments_loop argv i s = Inr s' \<Longrightarrow> i \<le> n \<Longrightarrow> n < length argv \<Longrightarrow>
   argv ! n = ''-h'' \<or> argv ! n = ''--height'' \<Longrightarrow>
   (i < n \<longrightarrow> argv ! (n - 1) \<noteq> ''-h'' \<and> argv ! (n - 1) \<noteq> ''--height'') \<Longrightarrow>
   (\<forall>j. n + 2 \<le> j \<and> j < length argv \<longrightarrow> argv ! j \<noteq> ''-h'' \<and> argv ! j \<noteq> ''--height'') \<Longrightarrow>
   g_ClientHeight s' = word_of_int (wcstol (argv ! (n + 1)))"
proof (induction argv i s rule: ParseCommandLineArguments_loop.induct)
  case (1 argv i s)
  show ?case
  proof (cases "i = n")
    case True
    with 1(2) have l: "ParseCommandLineArguments_loop argv n s = Inr s'" by simp
    from loop_height_flag [OF l 1(5) 1(4) 1(7)] show ?thesis .
  next
    case False
    with 1(3) have lt: "i < n" by simp
    with 1(4) have il: "i < length argv" by simp
    from 1(2) il obtain i' s1 where
      b: "ParseCommandLineArguments_body argv i s = Inr (i', s1)"
      and l: "ParseCommandLineArguments_loop argv (i' + 1) s1 = Inr s'"
      by (rule loop_step)
    from 1(6) lt have prev: "argv ! (n - 1) \<noteq> ''-h''" "argv ! (n - 1) \<noteq> ''--height''" by auto
    show ?thesis
    proof (cases "i' < n")
      case True
      then have le: "i' + 1 \<le> n" by simp
      from prev have "i' + 1 < n \<longrightarrow> argv ! (n - 1) \<noteq> ''-h'' \<and> argv ! (n - 1) \<noteq> ''--height''"
        by simp
      from 1(1) [OF il b refl l le 1(4) 1(5) this 1(7)] show ?thesis .
    next
      case False
      then have "n \<le> i'" by simp
      from body_reads_height [OF b lt this 1(5) prev] have
        i': "i' = n + 1" and h: "g_ClientHeight s1 = word_of_int (wcstol (argv ! (n + 1)))"
        by auto
      from 1(7) i' have
        "\<forall>j. i' + 1 \<le> j \<and> j < length argv \<longrightarrow> argv ! j \<noteq> ''-h'' \<and> argv ! j \<noteq> ''--height''"
        by auto
      from loop_height_kept [OF l this] h show ?thesis by simp
    qed
  qed
qed

lemma GetAdapter_loop_returns:
  "\<not> failing e ComPtr_As \<Longrightarrow> \<exists>r. GetAdapter_loop e ds i m a = Inr r"
  by (induction e ds i m a rule: GetAdapter_loop.induct) auto

lemma GetAdapter_loop_choice:
  "GetAdapter_loop e ds i m a = Inr r \<Longrightarrow>
     (r = a \<and> (\<forall>d\<in>set ds. \<not> (\<not> software d \<and> supports_d3d12 d \<and> m < DedicatedVideoMemory d))) \<or>
     (\<exists>j<length ds. r = HardwareAdapter (i + j) \<and>
        \<not> software (ds ! j) \<and> supports_d3d12 (ds ! j) \<and> m < DedicatedVideoMemory (ds ! j) \<and>
        (\<forall>d\<in>set ds. \<not> software d \<and> supports_d3d12 d \<longrightarrow>
           DedicatedVideoMemory d \<le> DedicatedVideoMemory (ds ! j)))"
proof (induction ds arbitrary: i m a)
  case Nil
  then show ?case by simp
next
  case (Cons d ds)
  let ?P = "\<lambda>d. \<not> software d \<and> supports_d3d12 d"
  let ?M = DedicatedVideoMemory
  show ?case
  proof (cases "?P d \<and> m < ?M d")
    case True
    with Cons.prems have l: "GetAdapter_loop e ds (i + 1) (?M d) (HardwareAdapter i) = Inr r"
      by (auto split: if_splits)
    from Cons.IH [OF l] consider
      (keep) "r = HardwareAdapter i" "\<forall>x\<in>set ds. ?P x \<longrightarrow> \<not> ?M d < ?M x"
      | (later) j where "j < length ds" "r = HardwareAdapter (i + 1 + j)"
        "?P (ds ! j)" "?M d < ?M (ds ! j)" "\<forall>x\<in>set ds. ?P x \<longrightarrow> ?M x \<le> ?M (ds ! j)"
      by blast
    then show ?thesis
    proof cases
      case keep
      then have "\<forall>x\<in>set (d # ds). ?P x \<longrightarrow> ?M x \<le> ?M d" by (auto simp: not_less)
      with keep True have "0 < length (d # ds) \<and> r = HardwareAdapter (i + 0) \<and>
          ?P ((d # ds) ! 0) \<and> m < ?M ((d # ds) ! 0) \<and>
          (\<forall>x\<in>set (d # ds). ?P x \<longrightarrow> ?M x \<le> ?M ((d # ds) ! 0))" by simp
      then show ?thesis by blast
    next
      case later
      from True later(4) have "m < ?M (ds ! j)" by (auto elim: less_trans)
      moreover from later(4) have "?M d \<le> ?M (ds ! j)" by simp
      ultimately have "Suc j < length (d # ds) \<and> r = HardwareAdapter (i + Suc j) \<and>
          ?P ((d # ds) ! Suc j) \<and> m < ?M ((d # ds) ! Suc j) \<and>
          (\<forall>x\<in>set (d # ds). ?P x \<longrightarrow> ?M x \<le> ?M ((d # ds) ! Suc j))"
        using later by simp
      then show ?thesis by blast
    qed
  next
    case False
    with Cons.prems have l: "GetAdapter_loop e ds (i + 1) m a = Inr r"
      by (auto split: if_splits)
    from Cons.IH [OF l] consider
      (keep) "r = a" "\<forall>x\<in>set ds. \<not> (?P x \<and> m < ?M x)"
      | (later) j where "j < length ds" "r = HardwareAdapter (i + 1 + j)"
        "?P (ds ! j)" "m < ?M (ds ! j)" "\<forall>x\<in>set ds. ?P x \<longrightarrow> ?M x \<le> ?M (ds ! j)"
      by blast
    then show ?thesis
    proof cases
      case keep
      with False show ?thesis by auto
    next
      case later
      have "?M d \<le> ?M (ds ! j)" if "?P d"
      proof -
        from False that have "?M d \<le> m" by (simp add: not_less)
        with later(4) show ?thesis by (auto elim: order_trans less_imp_le)
      qed
      with later have "Suc j < length (d # ds) \<and> r = HardwareAdapter (i + Suc j) \<and>
          ?P ((d # ds) ! Suc j) \<and> m < ?M ((d # ds) ! Suc j) \<and>
          (\<forall>x\<in>set (d # ds). ?P x \<longrightarrow> ?M x \<le> ?M ((d # ds) ! Suc j))"
        by simp
      then show ?thesis by blast
    qed
  qed
qed

lemma GetAdapter_hardware_choice:
  assumes "GetAdapter e False adapters = Inr a"
  shows "a \<noteq> WarpAdapter \<and>
         (\<forall>i. a = HardwareAdapter i \<longrightarrow>
            i < length adapters \<and>
            \<not> software (adapters ! i) \<and> supports_d3d12 (adapters ! i) \<and>
            0 < DedicatedVideoMemory (adapters ! i) \<and>
            (\<forall>d\<in>set adapters. \<not> software d \<and> supports_d3d12 d \<longrightarrow>
               DedicatedVideoMemory d \<le> DedicatedVideoMemory (adapters ! i))) \<and>
         (a = NullAdapter \<longrightarrow>
            (\<forall>d\<in>set adapters.
               \<not> (\<not> software d \<and> supports_d3d12 d \<and> 0 < DedicatedVideoMemory d)))"
proof -
  from assms have l: "GetAdapter_loop e adapters 0 0 NullAdapter = Inr a"
    by (auto simp: GetAdapter_def split: if_splits)
  from GetAdapter_loop_choice [OF l] show ?thesis by auto
qed

lemma GetAdapter_hardware_returns:
  assumes "\<not> failing e CreateDXGIFactory2" and as: "\<not> failing e ComPtr_As"
    and ex: "\<exists>d\<in>set adapters. \<not> software d \<and> supports_d3d12 d \<and> 0 < DedicatedVideoMemory d"
  shows "\<exists>i. GetAdapter e False adapters = Inr (HardwareAdapter i)"
proof -
  from GetAdapter_loop_returns [OF as] obtain r where
    l: "GetAdapter_loop e adapters 0 0 NullAdapter = Inr r" by blast
  from GetAdapter_loop_choice [OF l] ex obtain j where "r = HardwareAdapter (0 + j)" by blast
  with l assms(1) show ?thesis by (auto simp: GetAdapter_def)
qed

lemma abc_no_number: "\<not> starts_with_number ''abc''"
  by (simp add: starts_with_number_def is_space_def digit_val_def)

lemma wcstol_600: "wcstol ''600'' = 600"
  by (simp add: wcstol_def is_space_def digit_val_def)

lemma parse_invalid_width:
  "\<exists>s'. ParseCommandLineArguments [''DX12Renderer.exe'', ''-w'', ''abc''] globals0 = Inr s' \<and>
        g_ClientWidth s' = 0 \<and> g_ClientHeight s' = 720 \<and> \<not> g_UseWarp s'"
  by (simp add: ParseCommandLineArguments_def ParseCommandLineArguments_loop.simps
        ParseCommandLineArguments_body_def wcstol_no_number [OF abc_no_number] globals0_def)

lemma missing_value_out_of_bounds:
  "ParseCommandLineArguments [''DX12Renderer.exe'', ''-w''] globals0 = Inl (OutOfBounds 2)"
  by (simp add: ParseCommandLineArguments_def ParseCommandLineArguments_loop.simps
        ParseCommandLineArguments_body_def)

text \<open>
  Claim C9 as stated fails. On the command line \<^verbatim>\<open>DX12Renderer.exe -w abc\<close> the value of
  the width flag is not a number; \<^verbatim>\<open>wcstol\<close> gives 0 for it and the width becomes 0, not
  the default 1280. Nothing in \<^verbatim>\<open>ParseCommandLineArguments\<close> looks at whether the value
  was a number.
\<close>
theorem invalid_width_counterexample:
  "parsed_size [''DX12Renderer.exe'', ''-w'', ''abc''] = Some (0, 720) \<and>
   g_ClientWidth globals0 = 1280"
  using parse_invalid_width by (auto simp: parsed_size_def globals0_def)

text \<open>
  Claim C9, amended. When \<^verbatim>\<open>ParseCommandLineArguments\<close> returns on the initial globals:
  \<^item> a dimension whose flag does not occur on the command line keeps its default, 1280 for
    the width and 720 for the height;
  \<^item> a width flag that is the first argument or stands after an argument that is not a size
    flag, followed by a value and by no later occurrence of a width flag, sets the width to
    the low 32 bits of what \<^verbatim>\<open>wcstol\<close> reads from the value, which is 0, not the
    default, when the value does not begin with a number;
  \<^item> a height flag that is the first argument or stands after an argument that is not a
    height flag, followed by a value and by no later occurrence of a height flag, sets the
    height in the same way;
  \<^item> when neither \<^verbatim>\<open>-warp\<close> nor \<^verbatim>\<open>--warp\<close> occurs, \<open>g_UseWarp\<close> stays false, and
    \<^verbatim>\<open>GetAdapter\<close> called with it never gives the WARP adapter: what it returns is an
    enumerated adapter that is not a software adapter, on which a device can be created,
    whose dedicated video memory is above 0 and not below that of any other such adapter, or
    the null adapter when no such adapter is enumerated; and it does return such a hardware
    adapter when one is enumerated and neither the creation of the factory nor the query for
    the adapter interface fails.
  What happens when the value of a flag is missing is not part of the statement.
\<close>
theorem command_line_arguments:
  assumes p: "ParseCommandLineArguments argv globals0 = Inr s'"
  shows "((\<forall>a\<in>set argv. a \<noteq> ''-w'' \<and> a \<noteq> ''--width'') \<longrightarrow> g_ClientWidth s' = 1280) \<and>
         ((\<forall>a\<in>set argv. a \<noteq> ''-h'' \<and> a \<noteq> ''--height'') \<longrightarrow> g_ClientHeight s' = 720) \<and>
         (\<forall>pre f v post.
            argv = pre @ f # v # post \<and> (f = ''-w'' \<or> f = ''--width'') \<and>
            (pre = [] \<or> (last pre \<noteq> ''-w'' \<and> last pre \<noteq> ''--width'' \<and>
                         last pre \<noteq> ''-h'' \<and> last pre \<noteq> ''--height'')) \<and>
            (\<forall>a\<in>set post. a \<noteq> ''-w'' \<and> a \<noteq> ''--width'') \<longrightarrow>
            g_ClientWidth s' = word_of_int (wcstol v) \<and>
            (\<not> starts_with_number v \<longrightarrow> g_ClientWidth s' = 0)) \<and>
         (\<forall>pre f v post.
            argv = pre @ f # v # post \<and> (f = ''-h'' \<or> f = ''--height'') \<and>
            (pre = [] \<or> (last pre \<noteq> ''-h'' \<and> last pre \<noteq> ''--height'')) \<and>
            (\<forall>a\<in>set post. a \<noteq> ''-h'' \<and> a \<noteq> ''--height'') \<longrightarrow>
            g_ClientHeight s' = word_of_int (wcstol v) \<and>
            (\<not> starts_with_number v \<longrightarrow> g_ClientHeight s' = 0)) \<and>
         ((\<forall>a\<in>set argv. a \<noteq> ''-warp'' \<and> a \<noteq> ''--warp'') \<longrightarrow>
            \<not> g_UseWarp s' \<and>
            (\<forall>a. GetAdapter e (g_UseWarp s') adapters = Inr a \<longrightarrow>
               a \<noteq> WarpAdapter \<and>
               (\<forall>i. a = HardwareAdapter i \<longrightarrow>
                  i < length adapters \<and>
                  \<not> software (adapters ! i) \<and> supports_d3d12 (adapters ! i) \<and>
                  0 < DedicatedVideoMemory (adapters ! i) \<and>
                  (\<forall>d\<in>set adapters. \<not> software d \<and> supports_d3d12 d \<longrightarrow>
                     DedicatedVideoMemory d \<le> DedicatedVideoMemory (adapters ! i))) \<and>
               (a = NullAdapter \<longrightarrow>
                  (\<forall>d\<in>set adapters.
                     \<not> (\<not> software d \<and> supports_d3d12 d \<and> 0 < DedicatedVideoMemory d)))) \<and>
            (\<not> failing e CreateDXGIFactory2 \<and> \<not> failing e ComPtr_As \<and>
             (\<exists>d\<in>set adapters.
                \<not> software d \<and> supports_d3d12 d \<and> 0 < DedicatedVideoMemory d) \<longrightarrow>
             (\<exists>i. GetAdapter e (g_UseWarp s') adapters = Inr (HardwareAdapter i))))"
proof -
  from p have l: "ParseCommandLineArguments_loop argv 0 globals0 = Inr s'"
    by (simp add: ParseCommandLineArguments_def)
  have 1: "g_ClientWidth s' = 1280" if "\<forall>a\<in>set argv. a \<noteq> ''-w'' \<and> a \<noteq> ''--width''"
    using loop_width_kept [OF l] that by (simp add: globals0_def)
  have 2: "g_ClientHeight s' = 720" if "\<forall>a\<in>set argv. a \<noteq> ''-h'' \<and> a \<noteq> ''--height''"
    using loop_height_kept [OF l] that by (simp add: globals0_def)
  have nth: "n < length argv \<and> argv ! n = f \<and> argv ! (n + 1) = v \<and>
             (0 < n \<longrightarrow> argv ! (n - 1) = last pre) \<and>
             (\<forall>j. n + 2 \<le> j \<and> j < length argv \<longrightarrow> argv ! j \<in> set post)"
    if argv: "argv = pre @ f # v # post" and n: "n = length pre"
    for pre f v post n
  proof -
    have a: "argv ! j \<in> set post" if "n + 2 \<le> j" "j < length argv" for j
    proof -
      from that have "argv ! j = post ! (j - n - 2)" and "j - n - 2 < length post"
        by (auto simp: argv n nth_append nth_Cons')
      then show ?thesis by simp
    qed
    have b: "argv ! (n - 1) = last pre" if "0 < n"
      using that by (simp add: argv n nth_append last_conv_nth)
    have c: "n < length argv" "argv ! n = f" "argv ! (n + 1) = v"
      by (simp_all add: argv n nth_append)
    from a b c show ?thesis by blast
  qed
  have 3: "\<forall>pre f v post.
            argv = pre @ f # v # post \<and> (f = ''-w'' \<or> f = ''--width'') \<and>
            (pre = [] \<or> (last pre \<noteq> ''-w'' \<and> last pre \<noteq> ''--width'' \<and>
                         last pre \<noteq> ''-h'' \<and> last pre \<noteq> ''--height'')) \<and>
            (\<forall>a\<in>set post. a \<noteq> ''-w'' \<and> a \<noteq> ''--width'') \<longrightarrow>
            g_ClientWidth s' = word_of_int (wcstol v) \<and>
            (\<not> starts_with_number v \<longrightarrow> g_ClientWidth s' = 0)"
  proof (intro allI impI, elim conjE)
    fix pre f v post
    assume argv: "argv = pre @ f # v # post" and f: "f = ''-w'' \<or> f = ''--width''"
      and pre: "pre = [] \<or> (last pre \<noteq> ''-w'' \<and> last pre \<noteq> ''--width'' \<and>
                         last pre \<noteq> ''-h'' \<and> last pre \<noteq> ''--height'')"
      and post: "\<forall>a\<in>set post. a \<noteq> ''-w'' \<and> a \<noteq> ''--width''"
    let ?n = "length pre"
    note n = nth [OF argv refl]
    from n f have fl: "argv ! ?n = ''-w'' \<or> argv ! ?n = ''--width''" by simp
    from n pre have pv: "0 < ?n \<longrightarrow>
        argv ! (?n - 1) \<noteq> ''-w'' \<and> argv ! (?n - 1) \<noteq> ''--width'' \<and>
        argv ! (?n - 1) \<noteq> ''-h'' \<and> argv ! (?n - 1) \<noteq> ''--height''" by auto
    have ps: "\<forall>j. ?n + 2 \<le> j \<and> j < length argv \<longrightarrow>
        argv ! j \<noteq> ''-w'' \<and> argv ! j \<noteq> ''--width''"
    proof (intro allI impI)
      fix j assume "?n + 2 \<le> j \<and> j < length argv"
      with n have "argv ! j \<in> set post" by simp
      with post show "argv ! j \<noteq> ''-w'' \<and> argv ! j \<noteq> ''--width''" by simp
    qed
    from n have len: "?n < length argv" by simp
    from loop_width_read [OF l _ len fl pv ps] n
    have "g_ClientWidth s' = word_of_int (wcstol v)" by simp
    then show "g_ClientWidth s' = word_of_int (wcstol v) \<and>
            (\<not> starts_with_number v \<longrightarrow> g_ClientWidth s' = 0)"
      by (simp add: wcstol_no_number)
  qed
  have 4: "\<forall>pre f v post.
            argv = pre @ f # v # post \<and> (f = ''-h'' \<or> f = ''--height'') \<and>
            (pre = [] \<or> (last pre \<noteq> ''-h'' \<and> last pre \<noteq> ''--height'')) \<and>
            (\<forall>a\<in>set post. a \<noteq> ''-h'' \<and> a \<noteq> ''--height'') \<longrightarrow>
            g_ClientHeight s' = word_of_int (wcstol v) \<and>
            (\<not> starts_with_number v \<longrightarrow> g_ClientHeight s' = 0)"
  proof (intro allI impI, elim conjE)
    fix pre f v post
    assume argv: "argv = pre @ f # v # post" and f: "f = ''-h'' \<or> f = ''--height''"
      and pre: "pre = [] \<or> (last pre \<noteq> ''-h'' \<and> last pre \<noteq> ''--height'')"
      and post: "\<forall>a\<in>set post. a \<noteq> ''-h'' \<and> a \<noteq> ''--height''"
    let ?n = "length pre"
    note n = nth [OF argv refl]
    from n f have fl: "argv ! ?n = ''-h'' \<or> argv ! ?n = ''--height''" by simp
    from n pre have pv: "0 < ?n \<longrightarrow>
        argv ! (?n - 1) \<noteq> ''-h'' \<and> argv ! (?n - 1) \<noteq> ''--height''" by auto
    have ps: "\<forall>j. ?n + 2 \<le> j \<and> j < length argv \<longrightarrow>
        argv ! j \<noteq> ''-h'' \<and> argv ! j \<noteq> ''--height''"
    proof (intro allI impI)
      fix j assume "?n + 2 \<le> j \<and> j < length argv"
      with n have "argv ! j \<in> set post" by simp
      with post show "argv ! j \<noteq> ''-h'' \<and> argv ! j \<noteq> ''--height''" by simp
    qed
    from n have len: "?n < length argv" by simp
    from loop_height_read [OF l _ len fl pv ps] n
    have "g_ClientHeight s' = word_of_int (wcstol v)" by simp
    then show "g_ClientHeight s' = word_of_int (wcstol v) \<and>
            (\<not> starts_with_number v \<longrightarrow> g_ClientHeight s' = 0)"
      by (simp add: wcstol_no_number)
  qed
  have 5: "(\<forall>a\<in>set argv. a \<noteq> ''-warp'' \<and> a \<noteq> ''--warp'') \<longrightarrow>
            \<not> g_UseWarp s' \<and>
            (\<forall>a. GetAdapter e (g_UseWarp s') adapters = Inr a \<longrightarrow>
               a \<noteq> WarpAdapter \<and>
               (\<forall>i. a = HardwareAdapter i \<longrightarrow>
                  i < length adapters \<and>
                  \<not> software (adapters ! i) \<and> supports_d3d12 (adapters ! i) \<and>
                  0 < DedicatedVideoMemory (adapters ! i) \<and>
                  (\<forall>d\<in>set adapters. \<not> software d \<and> supports_d3d12 d \<longrightarrow>
                     DedicatedVideoMemory d \<le> DedicatedVideoMemory (adapters ! i))) \<and>
               (a = NullAdapter \<longrightarrow>
                  (\<forall>d\<in>set adapters.
                     \<not> (\<not> software d \<and> supports_d3d12 d \<and> 0 < DedicatedVideoMemory d)))) \<and>
            (\<not> failing e CreateDXGIFactory2 \<and> \<not> failing e ComPtr_As \<and>
             (\<exists>d\<in>set adapters.
                \<not> software d \<and> supports_d3d12 d \<and> 0 < DedicatedVideoMemory d) \<longrightarrow>
             (\<exists>i. GetAdapter e (g_UseWarp s') adapters = Inr (HardwareAdapter i)))"
  proof
    assume "\<forall>a\<in>set argv. a \<noteq> ''-warp'' \<and> a \<noteq> ''--warp''"
    with loop_warp_kept [OF l] have w: "g_UseWarp s' = False" by (simp add: globals0_def)
    show "\<not> g_UseWarp s' \<and>
            (\<forall>a. GetAdapter e (g_UseWarp s') adapters = Inr a \<longrightarrow>
               a \<noteq> WarpAdapter \<and>
               (\<forall>i. a = HardwareAdapter i \<longrightarrow>
                  i < length adapters \<and>
                  \<not> software (adapters ! i) \<and> supports_d3d12 (adapters ! i) \<and>
                  0 < DedicatedVideoMemory (adapters ! i) \<and>
                  (\<forall>d\<in>set adapters. \<not> software d \<and> supports_d3d12 d \<longrightarrow>
                     DedicatedVideoMemory d \<le> DedicatedVideoMemory (adapters ! i))) \<and>
               (a = NullAdapter \<longrightarrow>
                  (\<forall>d\<in>set adapters.
                     \<not> (\<not> software d \<and> supports_d3d12 d \<and> 0 < DedicatedVideoMemory d)))) \<and>
            (\<not> failing e CreateDXGIFactory2 \<and> \<not> failing e ComPtr_As \<and>
             (\<exists>d\<in>set adapters.
                \<not> software d \<and> supports_d3d12 d \<and> 0 < DedicatedVideoMemory d) \<longrightarrow>
             (\<exists>i. GetAdapter e (g_UseWarp s') adapters = Inr (HardwareAdapter i)))"
      unfolding w
    proof (intro conjI)
      show "\<not> False" by simp
      show "\<forall>a. GetAdapter e False adapters = Inr a \<longrightarrow>
               a \<noteq> WarpAdapter \<and>
               (\<forall>i. a = HardwareAdapter i \<longrightarrow>
                  i < length adapters \<and>
                  \<not> software (adapters ! i) \<and> supports_d3d12 (adapters ! i) \<and>
                  0 < DedicatedVideoMemory (adapters ! i) \<and>
                  (\<forall>d\<in>set adapters. \<not> software d \<and> supports_d3d12 d \<longrightarrow>
                     DedicatedVideoMemory d \<le> DedicatedVideoMemory (adapters ! i))) \<and>
               (a = NullAdapter \<longrightarrow>
                  (\<forall>d\<in>set adapters.
                     \<not> (\<not> software d \<and> supports_d3d12 d \<and> 0 < DedicatedVideoMemory d)))"
        by (intro allI impI) (rule GetAdapter_hardware_choice)
      show "\<not> failing e CreateDXGIFactory2 \<and> \<not> failing e ComPtr_As \<and>
             (\<exists>d\<in>set adapters.
                \<not> software d \<and> supports_d3d12 d \<and> 0 < DedicatedVideoMemory d) \<longrightarrow>
             (\<exists>i. GetAdapter e False adapters = Inr (HardwareAdapter i))"
        by (intro impI, elim conjE) (rule GetAdapter_hardware_returns)
    qed
  qed
  have c1: "(\<forall>a\<in>set argv. a \<noteq> ''-w'' \<and> a \<noteq> ''--width'') \<longrightarrow> g_ClientWidth s' = 1280"
    by (intro impI) (rule 1)
  have c2: "(\<forall>a\<in>set argv. a \<noteq> ''-h'' \<and> a \<noteq> ''--height'') \<longrightarrow> g_ClientHeight s' = 720"
    by (intro impI) (rule 2)
  show ?thesis
    by (intro conjI) (rule c1 c2 3 4 5)+
qed

lemma parse_two_flags:
  "\<exists>s'. ParseCommandLineArguments
          [''DX12Renderer.exe'', ''-w'', ''abc'', ''-h'', ''600''] globals0 = Inr s'"
  by (simp add: ParseCommandLineArguments_def ParseCommandLineArguments_loop.simps
        ParseCommandLineArguments_body_def)

lemma parse_no_flags:
  "\<exists>s'. ParseCommandLineArguments [''DX12Renderer.exe''] globals0 = Inr s'"
  by (simp add: ParseCommandLineArguments_def ParseCommandLineArguments_loop.simps
        ParseCommandLineArguments_body_def)

lemma example_adapters_choice:
  assumes "i < length example_adapters"
    and "\<forall>d\<in>set example_adapters. \<not> software d \<and> supports_d3d12 d \<longrightarrow>
           DedicatedVideoMemory d \<le> DedicatedVideoMemory (example_adapters ! i)"
  shows "i = 2"
proof -
  from assms(1) have "i = 0 \<or> i = 1 \<or> i = 2" by (auto simp: example_adapters_def)
  with assms(2) show ?thesis by (auto simp: example_adapters_def)
qed

theorem command_line_arguments_witness:
  "(\<exists>s'. ParseCommandLineArguments
           [''DX12Renderer.exe'', ''-w'', ''abc'', ''-h'', ''600''] globals0 = Inr s' \<and>
         g_ClientWidth s' = 0 \<and> g_ClientHeight s' = 600 \<and> \<not> g_UseWarp s' \<and>
         GetAdapter quiet_env (g_UseWarp s') example_adapters = Inr (HardwareAdapter 2)) \<and>
   (\<exists>s'. ParseCommandLineArguments [''DX12Renderer.exe''] globals0 = Inr s' \<and>
         g_ClientWidth s' = 1280 \<and> g_ClientHeight s' = 720)"
proof -
  from parse_two_flags obtain s' where
    p: "ParseCommandLineArguments
          [''DX12Renderer.exe'', ''-w'', ''abc'', ''-h'', ''600''] globals0 = Inr s'"
    by blast
  note t = command_line_arguments [OF p, of quiet_env example_adapters]
  have w: "g_ClientWidth s' = 0"
    using t [THEN conjunct2, THEN conjunct2, THEN conjunct1, rule_format,
             of "[''DX12Renderer.exe'']" "''-w''" "''abc''" "[''-h'', ''600'']"] abc_no_number
    by auto
  have h: "g_ClientHeight s' = 600"
    using t [THEN conjunct2, THEN conjunct2, THEN conjunct2, THEN conjunct1, rule_format,
             of "[''DX12Renderer.exe'', ''-w'', ''abc'']" "''-h''" "''600''" "[]"] wcstol_600
    by auto
  have nw: "\<forall>a\<in>set [''DX12Renderer.exe'', ''-w'', ''abc'', ''-h'', ''600''].
              a \<noteq> ''-warp'' \<and> a \<noteq> ''--warp''" by simp
  note a = t [THEN conjunct2, THEN conjunct2, THEN conjunct2, THEN conjunct2, THEN mp, OF nw]
  from a have u: "\<not> g_UseWarp s'" by (rule conjunct1)
  from a have ex: "\<exists>i. GetAdapter quiet_env (g_UseWarp s') example_adapters
                                = Inr (HardwareAdapter i)"
    by (auto simp: quiet_env_def example_adapters_def)
  then obtain i where g: "GetAdapter quiet_env (g_UseWarp s') example_adapters
                                = Inr (HardwareAdapter i)" ..
  from a g have "i < length example_adapters \<and>
      (\<forall>d\<in>set example_adapters. \<not> software d \<and> supports_d3d12 d \<longrightarrow>
           DedicatedVideoMemory d \<le> DedicatedVideoMemory (example_adapters ! i))"
    by blast
  then have "i = 2" using example_adapters_choice by blast
  with g have g2: "GetAdapter quiet_env (g_UseWarp s') example_adapters
                     = Inr (HardwareAdapter 2)" by simp
  from parse_no_flags obtain s'' where
    p': "ParseCommandLineArguments [''DX12Renderer.exe''] globals0 = Inr s''" by blast
  note t' = command_line_arguments [OF p', of quiet_env example_adapters]
  have w': "g_ClientWidth s'' = 1280" using t' [THEN conjunct1] by simp
  have h': "g_ClientHeight s'' = 720" using t' [THEN conjunct2, THEN conjunct1] by simp
  from p w h u g2 p' w' h' show ?thesis by blast
qed

section \<open>The message loop does not get stuck\<close>

text \<open>
  The statements above are about operations that return. They do return: after start-up,
  as long as no call of a collaborator fails, the swap chain answers indices below
  \<open>g_NumFrames\<close> and the fence counter has not wrapped, every message is handled to its
  end, and in particular no wait on the fence blocks for ever.
\<close>

lemma gpu_retire_covers:
  "gpu_retire k c ps = (c', ps') \<Longrightarrow> sorted_wrt (<) (c # ps) \<Longrightarrow>
     \<forall>v\<in>set (c # ps). v \<le> c' \<or> v \<in> set ps'"
proof (induction k c ps rule: gpu_retire.induct)
  case (1 c ps)
  then show ?case by auto
next
  case (2 k c)
  then show ?case by auto
next
  case (3 k c p ps)
  from 3(2) have r: "gpu_retire k p ps = (c', ps')" by simp
  from 3(3) have so: "sorted_wrt (<) (p # ps)" and "c < p" by auto
  from gpu_retire_ordered [OF r so] have "p \<le> c'" by simp
  with \<open>c < p\<close> have "c \<le> c'" by simp
  with 3(1) [OF r so] show ?case by auto
qed

lemma fence_after_wait_returns:
  assumes so: "sorted_wrt (<) (c # ps)" and w: "v \<le> c \<or> v \<in> set ps"
  shows "\<exists>c' ps'. fence_after_wait k v c ps = Some (c', ps')"
proof (cases "gpu_retire k c ps")
  case (Pair c1 ps1)
  from gpu_retire_covers [OF Pair so] gpu_retire_ordered [OF Pair so] w
  have 1: "v \<le> c1 \<or> v \<in> set ps1" by auto
  show ?thesis
  proof (cases "c1 < v")
    case True
    with 1 have "v \<in> set ps1" by auto
    then have "gpu_reach v c1 ps1 \<noteq> None" by (rule gpu_reach_member) simp
    with Pair True show ?thesis by (auto simp: fence_after_wait_def)
  next
    case False
    with Pair show ?thesis by (simp add: fence_after_wait_def)
  qed
qed

lemma gpu_reach_covers:
  "gpu_reach v c ps = Some (c', ps') \<Longrightarrow> sorted_wrt (<) (c # ps) \<Longrightarrow>
     \<forall>x\<in>set (c # ps). x \<le> c' \<or> x \<in> set ps'"
proof (induction v c ps rule: gpu_reach.induct)
  case (1 v c)
  then show ?case by (auto split: if_splits)
next
  case (2 v c p ps)
  show ?case
  proof (cases "v \<le> c")
    case True
    with 2 show ?thesis by auto
  next
    case False
    with 2(2) have r: "gpu_reach v p ps = Some (c', ps')" by simp
    from 2(3) have so: "sorted_wrt (<) (p # ps)" and "c < p" by auto
    from gpu_reach_ordered [OF r so] have "p \<le> c'" by simp
    with \<open>c < p\<close> have "c \<le> c'" by simp
    with 2(1) [OF False r so] show ?thesis by auto
  qed
qed

lemma fence_after_wait_covers:
  assumes fw: "fence_after_wait k v c ps = Some (c', ps')" and so: "sorted_wrt (<) (c # ps)"
  shows "\<forall>x\<in>set (c # ps). x \<le> c' \<or> x \<in> set ps'"
proof (cases "gpu_retire k c ps")
  case (Pair c1 ps1)
  note o = gpu_retire_ordered [OF Pair so]
  note cv = gpu_retire_covers [OF Pair so]
  show ?thesis
  proof (cases "c1 < v")
    case True
    with fw Pair have r: "gpu_reach v c1 ps1 = Some (c', ps')"
      by (simp add: fence_after_wait_def)
    from o have so1: "sorted_wrt (<) (c1 # ps1)" by simp
    from gpu_reach_ordered [OF r so1] have le: "c1 \<le> c'" by simp
    note rc = gpu_reach_covers [OF r so1]
    show ?thesis
    proof
      fix x assume "x \<in> set (c # ps)"
      with cv have "x \<le> c1 \<or> x \<in> set ps1" by blast
      then show "x \<le> c' \<or> x \<in> set ps'"
      proof
        assume "x \<le> c1"
        with le have "x \<le> c'" by (rule order_trans [rotated])
        then show "x \<le> c' \<or> x \<in> set ps'" by simp
      next
        assume "x \<in> set ps1"
        with rc show "x \<le> c' \<or> x \<in> set ps'" by simp
      qed
    qed
  next
    case False
    with fw Pair cv show ?thesis by (auto simp: fence_after_wait_def)
  qed
qed


lemma Render_returns_ordered:
  assumes ok: "\<And>c. \<not> failing e c" and nxt: "next_index e < g_NumFrames"
    and inv: "fence_ordered s" and sp: "slots_pending s"
    and nw: "unat (g_FenceValue s) + 1 < 2 ^ 64"
  shows "\<exists>s'. Render e s = Inr s' \<and> slots_pending s'"
proof -
  let ?v = "g_FenceValue s + 1"
  let ?F = "(g_FrameFenceValues s)(g_CurrentBackBufferIndex s := ?v)"
  from inv have so: "sorted_wrt (<) (fence_completed s # queue_signals s)"
    and le: "list_all (\<lambda>v. v \<le> g_FenceValue s) (fence_completed s # queue_signals s)"
    by (auto simp: fence_ordered_def)
  from sp have idx: "g_CurrentBackBufferIndex s < g_NumFrames" by (simp add: slots_pending_def)
  from signal_ordered(1) [OF so le nw] have
    so': "sorted_wrt (<) (fence_completed s # queue_signals s @ [?v])" .
  have pend: "?F i \<le> fence_completed s \<or> ?F i \<in> set (queue_signals s @ [?v])"
    if "i < g_NumFrames" for i
    using sp that by (auto simp: slots_pending_def)
  from fence_after_wait_returns [OF so' pend [OF nxt]] obtain c ps where
    fw: "fence_after_wait (gpu_steps e) (?F (next_index e)) (fence_completed s)
           (queue_signals s @ [?v]) = Some (c, ps)" by blast
  from Render_returns [of e s c ps, OF ok idx nxt fw] obtain s' where
    r: "Render e s = Inr s'" by blast
  note f = Render_fields [OF r]
  from f(13) fw have c: "fence_completed s' = c" "queue_signals s' = ps" by simp_all
  from fence_after_wait_covers [OF fw so'] fence_after_wait_ordered [OF fw so'] have
    cov: "\<forall>x\<in>set (fence_completed s # queue_signals s @ [?v]). x \<le> c \<or> x \<in> set ps"
    and mono: "fence_completed s \<le> c" by auto
  have "g_FrameFenceValues s' i \<le> fence_completed s' \<or>
        g_FrameFenceValues s' i \<in> set (queue_signals s')" if "i < g_NumFrames" for i
  proof -
    from pend [OF that] have "?F i \<le> c \<or> ?F i \<in> set ps"
    proof
      assume "?F i \<le> fence_completed s"
      from order_trans [OF this mono] show ?thesis by (rule disjI1)
    next
      assume "?F i \<in> set (queue_signals s @ [?v])"
      then have "?F i \<in> set (fence_completed s # queue_signals s @ [?v])" by simp
      with cov show ?thesis by blast
    qed
    then show ?thesis by (simp only: f(11) c)
  qed
  with nxt f(12) have "slots_pending s'" by (simp add: slots_pending_def)
  with r show ?thesis by blast
qed

lemma Resize_returns_ordered:
  assumes ok: "\<And>c. \<not> failing e c" and nxt: "next_index e < g_NumFrames"
    and inv: "fence_ordered s" and sp: "slots_pending s"
    and nw: "unat (g_FenceValue s) + 1 < 2 ^ 64"
  shows "\<exists>s'. Resize e width height s = Inr s' \<and> slots_pending s'"
proof -
  from sp have idx: "g_CurrentBackBufferIndex s < g_NumFrames" by (simp add: slots_pending_def)
  from Resize_returns [OF ok idx] obtain s' where r: "Resize e width height s = Inr s'" by blast
  show ?thesis
  proof (cases "g_ClientWidth s \<noteq> width \<or> g_ClientHeight s \<noteq> height")
    case False
    with r sp show ?thesis by (simp add: Resize_def)
  next
    case True
    note f = Resize_fields [OF r True]
    from inv idx have so: "sorted_wrt (<) (fence_completed s # queue_signals s)"
      and le: "list_all (\<lambda>v. v \<le> g_FenceValue s) (fence_completed s # queue_signals s)"
      and cur: "g_FrameFenceValues s (g_CurrentBackBufferIndex s) \<le> fence_completed s"
      by (auto simp: fence_ordered_def)
    from fence_step_ordered(3) [OF f(13) so le nw] have
      mono: "fence_completed s \<le> fence_completed s'" .
    have "g_FrameFenceValues s' i \<le> fence_completed s'" if "i < g_NumFrames" for i
    proof -
      from that have "i = 0 \<or> i = 1" by (auto simp: g_NumFrames_def)
      then have "g_FrameFenceValues s' i = g_FrameFenceValues s (g_CurrentBackBufferIndex s)"
        unfolding f(11) by auto
      with order_trans [OF cur mono] show ?thesis by simp
    qed
    with nxt f(12) have "slots_pending s'" by (simp add: slots_pending_def)
    with r show ?thesis by blast
  qed
qed


lemma call_slots_pending [simp]: "slots_pending (call c s) = slots_pending s"
  by (simp add: slots_pending_def call_def)

lemma WndProc_returns:
  assumes ok: "\<And>c. \<not> failing e c" and nxt: "next_index e < g_NumFrames"
    and inv: "fence_ordered s" and sp: "slots_pending s"
    and nw: "unat (g_FenceValue s) + 1 < 2 ^ 64"
  shows "\<exists>s'. WndProc e m s = Inr s' \<and> slots_pending s'"
proof (cases "g_IsInitialized s")
  case False
  with sp show ?thesis by (simp add: WndProc_def)
next
  case True
  show ?thesis
  proof (cases m)
    case WM_PAINT
    with True Render_returns_ordered [OF ok nxt inv sp nw] show ?thesis
      by (simp add: WndProc_def)
  next
    case WM_SIZE
    let ?s1 = "call GetClientRect s"
    have "unat (g_FenceValue ?s1) + 1 < 2 ^ 64" using nw by simp
    from Resize_returns_ordered [OF ok nxt _ _ this] inv sp WM_SIZE True show ?thesis
      by (simp add: WndProc_def Let_def)
  next
    case (WM_SYSKEYDOWN k)
    with True sp show ?thesis by (simp add: WndProc_def slots_pending_def)
  next
    case (WM_KEYDOWN k)
    with True sp show ?thesis by (simp add: WndProc_def slots_pending_def)
  qed (use True sp in \<open>simp_all add: WndProc_def\<close>)
qed

lemma step_returns:
  assumes ok: "\<And>e m. ev = Message e m \<Longrightarrow> (\<forall>c. \<not> failing e c) \<and> next_index e < g_NumFrames"
    and inv: "fence_ordered s" and sp: "slots_pending s"
    and nw: "unat (g_FenceValue s) + 1 < 2 ^ 64"
  shows "\<exists>s'. step ev s = Inr s' \<and> slots_pending s'"
proof (cases ev)
  case (Message e m)
  from ok [OF Message] have "\<And>c. \<not> failing e c" "next_index e < g_NumFrames" by auto
  from WndProc_returns [OF this inv sp nw] Message show ?thesis by (simp add: step_def)
next
  case (GpuProgress k)
  obtain c ps where g: "gpu_retire k (fence_completed s) (queue_signals s) = (c, ps)"
    by (cases "gpu_retire k (fence_completed s) (queue_signals s)")
  from inv have so: "sorted_wrt (<) (fence_completed s # queue_signals s)"
    by (simp add: fence_ordered_def)
  note cv = gpu_retire_covers [OF g so]
  have "g_FrameFenceValues s i \<le> c \<or> g_FrameFenceValues s i \<in> set ps"
    if "i < g_NumFrames" for i
  proof -
    from sp that have "g_FrameFenceValues s i \<in> set (fence_completed s # queue_signals s)
        \<or> g_FrameFenceValues s i \<le> fence_completed s"
      by (auto simp: slots_pending_def)
    then show ?thesis
    proof
      assume "g_FrameFenceValues s i \<in> set (fence_completed s # queue_signals s)"
      with cv show ?thesis by blast
    next
      assume a: "g_FrameFenceValues s i \<le> fence_completed s"
      from gpu_retire_ordered [OF g so] have "fence_completed s \<le> c" by simp
      from order_trans [OF a this] show ?thesis by (rule disjI1)
    qed
  qed
  with sp have "slots_pending (s\<lparr>fence_completed := c, queue_signals := ps\<rparr>)"
    by (simp add: slots_pending_def)
  with g GpuProgress show ?thesis by (simp add: step_def)
qed

lemma run_returns:
  "(\<And>e m. Message e m \<in> set evs \<Longrightarrow> (\<forall>c. \<not> failing e c) \<and> next_index e < g_NumFrames) \<Longrightarrow>
   fence_ordered s \<Longrightarrow> slots_pending s \<Longrightarrow> unat (g_FenceValue s) + length evs < 2 ^ 64 \<Longrightarrow>
   \<exists>s'. run evs s = Inr s'"
proof (induction evs arbitrary: s)
  case Nil
  then show ?case by simp
next
  case (Cons ev evs)
  from Cons.prems(4) have nw: "unat (g_FenceValue s) + 1 < 2 ^ 64" by simp
  have "\<exists>s1. step ev s = Inr s1 \<and> slots_pending s1"
  proof (rule step_returns [OF _ Cons.prems(2,3) nw])
    fix e m assume "ev = Message e m"
    with Cons.prems(1) [of e m]
    show "(\<forall>c. \<not> failing e c) \<and> next_index e < g_NumFrames" by simp
  qed
  then obtain s1 where st: "step ev s = Inr s1" and sp1: "slots_pending s1" by blast
  from step_fence_ordered [OF st Cons.prems(2) nw] have inv1: "fence_ordered s1"
    and c: "g_FenceValue s1 = g_FenceValue s \<or> g_FenceValue s1 = g_FenceValue s + 1" by auto
  from counter_step [OF c nw] Cons.prems(4) have "unat (g_FenceValue s1) + length evs < 2 ^ 64"
    by simp
  have "\<exists>s'. run evs s1 = Inr s'"
  proof (rule Cons.IH [OF _ inv1 sp1 \<open>unat (g_FenceValue s1) + length evs < 2 ^ 64\<close>])
    fix e m assume "Message e m \<in> set evs"
    with Cons.prems(1) [of e m]
    show "(\<forall>c. \<not> failing e c) \<and> next_index e < g_NumFrames" by simp
  qed
  with st show ?case by simp
qed

lemma message_loop_returns:
  assumes "wWinMain_startup e0 argv adapters = Inr s0"
    and "\<And>e m. Message e m \<in> set evs \<Longrightarrow> (\<forall>c. \<not> failing e c) \<and> next_index e < g_NumFrames"
    and "length evs < 2 ^ 64"
  shows "\<exists>s. run evs s0 = Inr s"
proof -
  note f = startup_fence [OF assms(1)]
  have sp: "slots_pending s0" by (simp add: slots_pending_def f)
  from assms(3) have "unat (g_FenceValue s0) + length evs < 2 ^ 64" by (simp add: f)
  show ?thesis
    by (rule run_returns [OF assms(2) startup_fence_ordered [OF assms(1)] sp
          \<open>unat (g_FenceValue s0) + length evs < 2 ^ 64\<close>])
qed

end
